theory Spec2Isabelle
  imports Complex_Main "HOL-Library.Word"
begin

section \<open>JavaScript values used by \<open>TextComparator\<close>\<close>

text \<open>
  The class \<open>TextComparator\<close> of \<open>frontend/js/mobile-menu.js\<close> is embedded function by
  function. A JavaScript string is a sequence of UTF-16 code units; indexing
  (\<open>str[i]\<close>), \<open>length\<close>, \<open>===\<close> and regular expressions without the \<open>u\<close> flag all
  work on code units, so a string is a list of 16-bit words.
\<close>

type_synonym jschar = "16 word"
type_synonym jsstring = "jschar list"

text \<open>
  A JavaScript number is an IEEE 754 binary64 value. Every number that \<open>compare\<close>
  computes is finite, so such a number is modelled by the rational it denotes, and every
  arithmetic operation rounds its exact result to the nearest binary64 value, ties to
  even. \<open>binade x\<close> is the exponent \<open>e\<close> with \<open>2^e \<le> |x| < 2^(e+1)\<close>; below
  \<open>2^-1022\<close> the spacing of the subnormal numbers is used. Overflow to \<open>Infinity\<close> is
  not modelled: it needs a magnitude of \<open>2^1024\<close>, and the operands here are lengths of
  strings and arrays (integers below \<open>2^53\<close>, which are exact) and values in \<open>[0, 100]\<close>.
\<close>

type_synonym number = rat

fun ilog2 :: "nat \<Rightarrow> nat" where
  "ilog2 n = (if n < 2 then 0 else Suc (ilog2 (n div 2)))"

declare ilog2.simps [simp del]

definition binade :: "number \<Rightarrow> int" where
  "binade x =
     (if 1 \<le> \<bar>x\<bar> then int (ilog2 (nat \<lfloor>\<bar>x\<bar>\<rfloor>))
      else - (int (ilog2 (nat (\<lceil>1 / \<bar>x\<bar>\<rceil> - 1))) + 1))"

definition round_half_even :: "number \<Rightarrow> int" where
  "round_half_even x =
     (let f = \<lfloor>x\<rfloor>; r = x - of_int f
      in if r < 1 / 2 then f
         else if 1 / 2 < r then f + 1
         else if even f then f else f + 1)"

text \<open>
  The exponent that fixes the spacing around \<open>x\<close>, and that spacing: 53 significant
  bits, so neighbouring values in the binade of \<open>x\<close> lie \<open>2^(e - 52)\<close> apart.
\<close>

definition fexp :: "rat \<Rightarrow> int" where
  "fexp x = max (binade x) (- 1022)"

definition quantum :: "rat \<Rightarrow> rat" where
  "quantum x = 2 powi (fexp x - 52)"

definition fround :: "rat \<Rightarrow> number" where
  "fround x =
     (if x = 0 then 0
      else of_int (round_half_even (x / quantum x)) * quantum x)"

definition fsub :: "number \<Rightarrow> number \<Rightarrow> number" where
  "fsub a b = fround (a - b)"

definition fmul :: "number \<Rightarrow> number \<Rightarrow> number" where
  "fmul a b = fround (a * b)"

definition fdiv :: "number \<Rightarrow> number \<Rightarrow> number" where
  "fdiv a b = fround (a / b)"

text \<open>The decimal literals of the source, as the binary64 values they denote.\<close>

definition lit_0_02 :: number where "lit_0_02 = fround (2 / 100)"
definition lit_0_9 :: number where "lit_0_9 = fround (9 / 10)"
definition lit_0_70 :: number where "lit_0_70 = fround (70 / 100)"
definition lit_0_5 :: number where "lit_0_5 = fround (5 / 10)"

text \<open>\<open>Math.round\<close>: the nearest integer, a tie going towards \<open>+\<infinity>\<close>.\<close>

definition Math_round :: "number \<Rightarrow> int" where
  "Math_round x = \<lfloor>x + 1 / 2\<rfloor>"

text \<open>
  The threshold is a number that the caller passes, so it can be any number value: a
  finite one, an infinity or \<open>NaN\<close>. \<open>ge_num x t\<close> is the test \<open>x >= t\<close> and \<open>lt_num x t\<close>
  the test \<open>x < t\<close> of a finite \<open>x\<close> against such a value; every comparison with \<open>NaN\<close>
  is false.
\<close>

datatype jsnumber = Num number | PosInfinity | NegInfinity | NaN

fun ge_num :: "number \<Rightarrow> jsnumber \<Rightarrow> bool" where
  "ge_num x (Num t) = (t \<le> x)"
| "ge_num x PosInfinity = False"
| "ge_num x NegInfinity = True"
| "ge_num x NaN = False"

fun lt_num :: "number \<Rightarrow> jsnumber \<Rightarrow> bool" where
  "lt_num x (Num t) = (x < t)"
| "lt_num x PosInfinity = True"
| "lt_num x NegInfinity = False"
| "lt_num x NaN = False"

section \<open>normalize and tokenize\<close>

text \<open>
  \<open>normalize(text)\<close> is
  \<open>text.toLowerCase().replace(/[.,!?;:'"()\[\]{}]/g, '').replace(/\s+/g, ' ').trim()\<close>.
  \<open>String.prototype.toLowerCase\<close> follows the Unicode case tables of the JavaScript
  engine, which are not part of the repository: it is the parameter \<open>toLowerCase\<close> of
  the model.
\<close>

definition is_punct :: "jschar \<Rightarrow> bool" where
  "is_punct c \<longleftrightarrow> c \<in> set [0x2E, 0x2C, 0x21, 0x3F, 0x3B, 0x3A, 0x27, 0x22,
                              0x28, 0x29, 0x5B, 0x5D, 0x7B, 0x7D]"

text \<open>The class \<open>\s\<close>, which is also the set of characters that \<open>trim\<close> strips.\<close>

definition is_space :: "jschar \<Rightarrow> bool" where
  "is_space c \<longleftrightarrow>
     c \<in> set [0x09, 0x0A, 0x0B, 0x0C, 0x0D, 0x20, 0xA0, 0x1680, 0x2028, 0x2029,
              0x202F, 0x205F, 0x3000, 0xFEFF]
     \<or> (0x2000 \<le> c \<and> c \<le> 0x200A)"

definition SPACE :: jschar where "SPACE = 0x20"

function collapse_spaces :: "jsstring \<Rightarrow> jsstring" where
  "collapse_spaces [] = []"
| "collapse_spaces (c # cs) =
     (if is_space c then SPACE # collapse_spaces (dropWhile is_space cs)
      else c # collapse_spaces cs)"
  by pat_completeness auto
termination
  by (relation "measure length") (auto simp: length_dropWhile_le less_Suc_eq_le)

definition trim :: "jsstring \<Rightarrow> jsstring" where
  "trim s = rev (dropWhile is_space (rev (dropWhile is_space s)))"

definition normalize :: "(jsstring \<Rightarrow> jsstring) \<Rightarrow> jsstring \<Rightarrow> jsstring" where
  "normalize toLowerCase text =
     trim (collapse_spaces (filter (\<lambda>c. \<not> is_punct c) (toLowerCase text)))"

text \<open>\<open>s.split(' ')\<close>: the pieces between single spaces; the empty string gives one empty piece.\<close>

fun split_on :: "jschar \<Rightarrow> jsstring \<Rightarrow> jsstring list" where
  "split_on sep [] = [[]]"
| "split_on sep (c # cs) =
     (if c = sep then [] # split_on sep cs
      else (case split_on sep cs of
              [] \<Rightarrow> [[c]]
            | w # ws \<Rightarrow> (c # w) # ws))"

definition tokenize :: "(jsstring \<Rightarrow> jsstring) \<Rightarrow> jsstring \<Rightarrow> jsstring list" where
  "tokenize toLowerCase text =
     filter (\<lambda>word. length word > 0) (split_on SPACE (normalize toLowerCase text))"

section \<open>levenshteinDistance and similarity\<close>

text \<open>
  The table \<open>dp\<close> is an array of \<open>m + 1\<close> rows, each a fresh array of \<open>n + 1\<close> zeros. The
  loops are folds over the index ranges of the source; every index they read or write
  lies inside the table and inside the strings.
\<close>

definition dp_set :: "nat list list \<Rightarrow> nat \<Rightarrow> nat \<Rightarrow> nat \<Rightarrow> nat list list" where
  "dp_set dp i j v = dp[i := (dp ! i)[j := v]]"

definition lev_cell :: "jsstring \<Rightarrow> jsstring \<Rightarrow> nat \<Rightarrow> nat \<Rightarrow> nat list list \<Rightarrow> nat list list" where
  "lev_cell str1 str2 i j dp =
     (if str1 ! (i - 1) = str2 ! (j - 1) then dp_set dp i j (dp ! (i - 1) ! (j - 1))
      else dp_set dp i j
             (1 + min (min (dp ! (i - 1) ! j) (dp ! i ! (j - 1))) (dp ! (i - 1) ! (j - 1))))"

definition levenshteinDistance :: "jsstring \<Rightarrow> jsstring \<Rightarrow> nat" where
  "levenshteinDistance str1 str2 =
     (let m = length str1;
          n = length str2;
          dp0 = replicate (m + 1) (replicate (n + 1) 0);
          dp1 = fold (\<lambda>i dp. dp_set dp i 0 i) [0..<m + 1] dp0;
          dp2 = fold (\<lambda>j dp. dp_set dp 0 j j) [0..<n + 1] dp1;
          dp3 = fold (\<lambda>i. fold (lev_cell str1 str2 i) [1..<n + 1]) [1..<m + 1] dp2
      in dp3 ! m ! n)"

definition similarity :: "jsstring \<Rightarrow> jsstring \<Rightarrow> number" where
  "similarity word1 word2 =
     (let maxLen = max (length word1) (length word2)
      in if maxLen = 0 then 1
         else fsub 1 (fdiv (of_nat (levenshteinDistance word1 word2)) (of_nat maxLen)))"

text \<open>
  The edit distance as the specification words it: the classic recurrence with unit
  cost for an insertion, a deletion and a substitution, \<open>lev a b i j\<close> being the
  distance between the first \<open>i\<close> characters of \<open>a\<close> and the first \<open>j\<close> of \<open>b\<close>.
\<close>

fun lev :: "'a list \<Rightarrow> 'a list \<Rightarrow> nat \<Rightarrow> nat \<Rightarrow> nat" where
  "lev a b 0 j = j"
| "lev a b (Suc i) 0 = Suc i"
| "lev a b (Suc i) (Suc j) =
     min (min (lev a b i (Suc j) + 1) (lev a b (Suc i) j + 1))
         (lev a b i j + (if a ! i = b ! j then 0 else 1))"

definition editDistance :: "'a list \<Rightarrow> 'a list \<Rightarrow> nat" where
  "editDistance a b = lev a b (length a) (length b)"

text \<open>
  The invariant of the loops of \<open>levenshteinDistance\<close>: the table has its shape, and the
  rows up to \<open>i\<close>, the first \<open>j\<close> cells of row \<open>i + 1\<close> and the first column hold the
  distances of the recurrence.
\<close>

definition table_ok :: "jsstring \<Rightarrow> jsstring \<Rightarrow> nat list list \<Rightarrow> bool" where
  "table_ok a b dp \<longleftrightarrow>
     length dp = length a + 1 \<and> (\<forall>r \<le> length a. length (dp ! r) = length b + 1)"

definition filled :: "jsstring \<Rightarrow> jsstring \<Rightarrow> nat list list \<Rightarrow> nat \<Rightarrow> nat \<Rightarrow> bool" where
  "filled a b dp i j \<longleftrightarrow>
     table_ok a b dp \<and>
     (\<forall>r \<le> length a. \<forall>c \<le> length b.
        (r \<le> i \<or> (r = i + 1 \<and> c \<le> j) \<or> c = 0) \<longrightarrow> dp ! r ! c = lev a b r c)"

section \<open>compare\<close>

datatype status = Correct | Incorrect | Missed

record wordResult =
  original :: jsstring
  spoken :: jsstring
  status :: status
  score :: number

text \<open>
  The field \<open>similarity\<close> of a word result is called \<open>score\<close> here, the name
  \<open>similarity\<close> being the function's.
\<close>

record results =
  originalWords :: "jsstring list"
  spokenWords :: "jsstring list"
  wordResults :: "wordResult list"
  correctCount :: nat
  incorrectCount :: nat
  missedCount :: nat
  extraCount :: int
  accuracy :: int

text \<open>
  The three variables \<open>bestMatch\<close>, \<open>bestSimilarity\<close> and \<open>bestIndex\<close> of one iteration;
  \<open>bestMatch = None\<close> is \<open>null\<close>.
\<close>

record best =
  bestMatch :: "jsstring option"
  bestSimilarity :: number
  bestIndex :: int

definition best0 :: best where
  "best0 = \<lparr>bestMatch = None, bestSimilarity = 0, bestIndex = - 1\<rparr>"

definition searchStart :: "nat \<Rightarrow> nat" where
  "searchStart i = nat (max 0 (int i - 5))"

definition searchEnd :: "jsstring list \<Rightarrow> nat \<Rightarrow> nat" where
  "searchEnd sw i = min (length sw) (i + 10)"

definition positionBonus :: "nat \<Rightarrow> nat \<Rightarrow> number" where
  "positionBonus i j = fsub 1 (fmul (of_int \<bar>int i - int j\<bar>) lit_0_02)"

definition adjustedSim :: "jsstring list \<Rightarrow> jsstring list \<Rightarrow> nat \<Rightarrow> nat \<Rightarrow> number" where
  "adjustedSim ow sw i j = fmul (similarity (ow ! i) (sw ! j)) (positionBonus i j)"

text \<open>The body of the first inner loop, for the spoken index \<open>j\<close>.\<close>

definition window_step :: "int set \<Rightarrow> jsstring list \<Rightarrow> jsstring list \<Rightarrow> nat \<Rightarrow> nat \<Rightarrow> best \<Rightarrow> best" where
  "window_step used ow sw i j b =
     (if int j \<in> used then b
      else if adjustedSim ow sw i j > bestSimilarity b
           then \<lparr>bestMatch = Some (sw ! j), bestSimilarity = adjustedSim ow sw i j,
                 bestIndex = int j\<rparr>
           else b)"

definition window_scan :: "int set \<Rightarrow> jsstring list \<Rightarrow> jsstring list \<Rightarrow> nat \<Rightarrow> best" where
  "window_scan used ow sw i =
     fold (window_step used ow sw i) [searchStart i..<searchEnd sw i] best0"

text \<open>The second inner loop, over the indices \<open>js\<close> still to visit; it stops at the first hit.\<close>

fun exact_scan :: "int set \<Rightarrow> jsstring list \<Rightarrow> jsstring list \<Rightarrow> nat \<Rightarrow> nat list \<Rightarrow> best \<Rightarrow> best" where
  "exact_scan used ow sw i [] b = b"
| "exact_scan used ow sw i (j # js) b =
     (if int j \<in> used then exact_scan used ow sw i js b
      else if searchStart i \<le> j \<and> j < searchEnd sw i then exact_scan used ow sw i js b
      else if sw ! j = ow ! i
           then \<lparr>bestMatch = Some (sw ! j), bestSimilarity = 1, bestIndex = int j\<rparr>
           else exact_scan used ow sw i js b)"

definition find_best :: "int set \<Rightarrow> jsstring list \<Rightarrow> jsstring list \<Rightarrow> nat \<Rightarrow> best" where
  "find_best used ow sw i =
     (let b = window_scan used ow sw i
      in if bestSimilarity b < lit_0_9 then exact_scan used ow sw i [0..<length sw] b
         else b)"

text \<open>\<open>bestMatch && ...\<close>: \<open>null\<close> and the empty string are falsy.\<close>

definition truthy :: "jsstring option \<Rightarrow> bool" where
  "truthy m = (case m of None \<Rightarrow> False | Some w \<Rightarrow> w \<noteq> [])"

text \<open>The classification of the winning candidate: the state is the set of used indices and the results.\<close>

definition classify :: "jsnumber \<Rightarrow> jsstring \<Rightarrow> best \<Rightarrow> int set \<times> results \<Rightarrow> int set \<times> results" where
  "classify similarityThreshold originalWord b st =
     (case st of (used, r) \<Rightarrow>
        if truthy (bestMatch b) \<and> ge_num (bestSimilarity b) similarityThreshold then
          (insert (bestIndex b) used,
           r\<lparr>wordResults := wordResults r @
                [\<lparr>original = originalWord, spoken = the (bestMatch b), status = Correct,
                  score = bestSimilarity b\<rparr>],
              correctCount := correctCount r + 1\<rparr>)
        else if truthy (bestMatch b) \<and> bestSimilarity b \<ge> lit_0_5 then
          (insert (bestIndex b) used,
           r\<lparr>wordResults := wordResults r @
                [\<lparr>original = originalWord, spoken = the (bestMatch b), status = Incorrect,
                  score = bestSimilarity b\<rparr>],
              incorrectCount := incorrectCount r + 1\<rparr>)
        else
          (used,
           r\<lparr>wordResults := wordResults r @
                [\<lparr>original = originalWord, spoken = [], status = Missed, score = 0\<rparr>],
              missedCount := missedCount r + 1\<rparr>))"

text \<open>The body of the outer loop, for the reference index \<open>i\<close>.\<close>

definition compare_step :: "jsnumber \<Rightarrow> jsstring list \<Rightarrow> jsstring list \<Rightarrow> nat \<Rightarrow> int set \<times> results \<Rightarrow> int set \<times> results" where
  "compare_step similarityThreshold ow sw i st =
     classify similarityThreshold (ow ! i) (find_best (fst st) ow sw i) st"

definition results0 :: "jsstring list \<Rightarrow> jsstring list \<Rightarrow> results" where
  "results0 ow sw =
     \<lparr>originalWords = ow, spokenWords = sw, wordResults = [], correctCount = 0,
      incorrectCount = 0, missedCount = 0, extraCount = 0, accuracy = 0\<rparr>"

text \<open>The state after the first \<open>k\<close> iterations of the outer loop.\<close>

definition compare_loop :: "jsnumber \<Rightarrow> jsstring list \<Rightarrow> jsstring list \<Rightarrow> nat \<Rightarrow> int set \<times> results" where
  "compare_loop similarityThreshold ow sw k =
     fold (compare_step similarityThreshold ow sw) [0..<k] ({}, results0 ow sw)"

definition finish :: "int set \<times> results \<Rightarrow> results" where
  "finish st =
     (case st of (used, r) \<Rightarrow>
        let r1 = r\<lparr>extraCount := max 0 (int (length (spokenWords r)) - int (card used))\<rparr>
        in if length (originalWords r1) > 0
           then r1\<lparr>accuracy :=
                  Math_round (fmul (fdiv (of_nat (correctCount r1))
                                         (of_nat (length (originalWords r1)))) 100)\<rparr>
           else r1)"

text \<open>
  \<open>compare(originalText, spokenText, similarityThreshold = 0.70)\<close>: an omitted third
  argument is \<open>None\<close>. A threshold that is given is a number, \<open>NaN\<close> and the infinities
  included; values that are not numbers have no counterpart in the model.
\<close>

definition compare :: "(jsstring \<Rightarrow> jsstring) \<Rightarrow> jsstring \<Rightarrow> jsstring \<Rightarrow> jsnumber option \<Rightarrow> results" where
  "compare toLowerCase originalText spokenText similarityThreshold =
     (let ow = tokenize toLowerCase originalText;
          sw = tokenize toLowerCase spokenText;
          thr = (case similarityThreshold of None \<Rightarrow> Num lit_0_70 | Some t \<Rightarrow> t)
      in finish (compare_loop thr ow sw (length ow)))"

section \<open>Notions used in the statements and proofs\<close>

text \<open>
  The window of iteration \<open>i\<close>; the candidates of its first scan, the unconsumed indices
  of the window; and the hits of its second scan, the unconsumed indices outside the
  window whose token is the reference token.
\<close>

definition in_window :: "jsstring list \<Rightarrow> nat \<Rightarrow> nat \<Rightarrow> bool" where
  "in_window sw i j \<longleftrightarrow> searchStart i \<le> j \<and> j < searchEnd sw i"

definition candidate :: "int set \<Rightarrow> jsstring list \<Rightarrow> nat \<Rightarrow> nat \<Rightarrow> bool" where
  "candidate used sw i j \<longleftrightarrow> in_window sw i j \<and> int j \<notin> used"

definition exact_hit :: "int set \<Rightarrow> jsstring list \<Rightarrow> jsstring list \<Rightarrow> nat \<Rightarrow> nat \<Rightarrow> bool" where
  "exact_hit used ow sw i j \<longleftrightarrow> int j \<notin> used \<and> \<not> in_window sw i j \<and> sw ! j = ow ! i"

text \<open>
  What the two scans of an iteration can leave in \<open>bestMatch\<close>, \<open>bestSimilarity\<close> and
  \<open>bestIndex\<close>: the initial values, or an unconsumed spoken index with its token and
  either its positive adjusted score or the score 1 of a hit.
\<close>

definition best_ok :: "int set \<Rightarrow> jsstring list \<Rightarrow> jsstring list \<Rightarrow> nat \<Rightarrow> best \<Rightarrow> bool" where
  "best_ok used ow sw i b \<longleftrightarrow>
     b = best0 \<or>
     (\<exists>j < length sw. int j \<notin> used \<and> bestMatch b = Some (sw ! j) \<and> bestIndex b = int j \<and>
        ((in_window sw i j \<and> bestSimilarity b = adjustedSim ow sw i j \<and> 0 < bestSimilarity b) \<or>
         (exact_hit used ow sw i j \<and> bestSimilarity b = 1)))"

text \<open>
  A word result of iteration \<open>i\<close> that carries a spoken token, and what every word result
  of iteration \<open>i\<close> satisfies.
\<close>

definition matched :: "jsstring list \<Rightarrow> jsstring list \<Rightarrow> nat \<Rightarrow> wordResult \<Rightarrow> bool" where
  "matched ow sw i w \<longleftrightarrow>
     spoken w \<noteq> [] \<and> 0 < score w \<and>
     (\<exists>j < length sw. spoken w = sw ! j \<and>
        ((in_window sw i j \<and> score w = adjustedSim ow sw i j) \<or>
         (\<not> in_window sw i j \<and> sw ! j = ow ! i \<and> score w = 1)))"

definition record_ok :: "jsnumber \<Rightarrow> jsstring list \<Rightarrow> jsstring list \<Rightarrow> nat \<Rightarrow> wordResult \<Rightarrow> bool" where
  "record_ok thr ow sw i w \<longleftrightarrow>
     original w = ow ! i \<and>
     (case status w of
        Correct \<Rightarrow> ge_num (score w) thr \<and> matched ow sw i w
      | Incorrect \<Rightarrow> lit_0_5 \<le> score w \<and> \<not> ge_num (score w) thr \<and> matched ow sw i w
      | Missed \<Rightarrow> spoken w = [] \<and> score w = 0)"

text \<open>The number of word results of a status, and the invariant of the outer loop.\<close>

definition count_status :: "status \<Rightarrow> wordResult list \<Rightarrow> nat" where
  "count_status s ws = length (filter (\<lambda>w. status w = s) ws)"

definition loop_inv :: "jsnumber \<Rightarrow> jsstring list \<Rightarrow> jsstring list \<Rightarrow> nat \<Rightarrow> int set \<times> results \<Rightarrow> bool" where
  "loop_inv thr ow sw k st \<longleftrightarrow>
     originalWords (snd st) = ow \<and> spokenWords (snd st) = sw \<and>
     length (wordResults (snd st)) = k \<and>
     (\<forall>i < k. record_ok thr ow sw i (wordResults (snd st) ! i)) \<and>
     correctCount (snd st) = count_status Correct (wordResults (snd st)) \<and>
     incorrectCount (snd st) = count_status Incorrect (wordResults (snd st)) \<and>
     missedCount (snd st) = count_status Missed (wordResults (snd st)) \<and>
     finite (fst st) \<and> fst st \<subseteq> int ` {0..<length sw} \<and>
     card (fst st) = correctCount (snd st) + incorrectCount (snd st)"

text \<open>
  \<open>toLowerCase\<close> on ASCII text, where it maps \<open>A\<close> to \<open>Z\<close> onto \<open>a\<close> to \<open>z\<close> and
  leaves every other character: the instance used in the concrete examples.
\<close>

definition lower_ascii :: "jsstring \<Rightarrow> jsstring" where
  "lower_ascii s = map (\<lambda>c. if 0x41 \<le> c \<and> c \<le> 0x5A then c + 0x20 else c) s"

text \<open>The value of the parameter \<open>similarityThreshold\<close> inside \<open>compare\<close>.\<close>

definition threshold :: "jsnumber option \<Rightarrow> jsnumber" where
  "threshold similarityThreshold =
     (case similarityThreshold of None \<Rightarrow> Num lit_0_70 | Some t \<Rightarrow> t)"

text \<open>The JavaScript string of an ASCII text, for writing the concrete examples.\<close>

definition ascii :: "string \<Rightarrow> jsstring" where
  "ascii s = map (\<lambda>c. of_nat (of_char c)) s"

text \<open>The set \<open>usedSpokenIndices\<close> after the first \<open>k\<close> iterations of the outer loop.\<close>

definition consumed :: "jsnumber \<Rightarrow> jsstring list \<Rightarrow> jsstring list \<Rightarrow> nat \<Rightarrow> int set" where
  "consumed thr ow sw k = fst (compare_loop thr ow sw k)"

text \<open>
  A passage of 40 words of which a reader reads the first 23, and a transcript whose
  eleventh word is the only one that matches.
\<close>

definition passage40 :: jsstring where
  "passage40 = ascii ''a a a a a a a a a a a a a a a a a a a a a a a b b b b b b b b b b b b b b b b b''"

definition spoken23 :: jsstring where
  "spoken23 = ascii ''a a a a a a a a a a a a a a a a a a a a a a a''"

definition far_text :: jsstring where
  "far_text = ascii ''a a a a a a a a a a z''"

section \<open>Rounding to binary64\<close>


lemma ilog2_bounds: "0 < n \<Longrightarrow> 2 ^ ilog2 n \<le> n \<and> n < 2 ^ (ilog2 n + 1)"
proof (induction n rule: ilog2.induct)
  case (1 n)
  show ?case
  proof (cases "n < 2")
    case True
    with 1(2) show ?thesis by (simp add: ilog2.simps)
  next
    case False
    then have "0 < n div 2" by simp
    with 1(1) False have ih: "2 ^ ilog2 (n div 2) \<le> n div 2" "n div 2 < 2 ^ (ilog2 (n div 2) + 1)"
      by simp_all
    have eq: "ilog2 n = Suc (ilog2 (n div 2))" using False by (subst ilog2.simps) simp
    from ih show ?thesis unfolding eq by simp linarith
  qed
qed

lemma binade_ge1:
  fixes x :: rat
  assumes "1 \<le> \<bar>x\<bar>"
  shows "2 powi binade x \<le> \<bar>x\<bar>" and "\<bar>x\<bar> < 2 powi (binade x + 1)"
proof -
  define n where "n = nat \<lfloor>\<bar>x\<bar>\<rfloor>"
  have fl: "1 \<le> \<lfloor>\<bar>x\<bar>\<rfloor>" using assms by (simp add: le_floor_iff)
  then have npos: "0 < n" by (simp add: n_def)
  have nx: "of_nat n \<le> \<bar>x\<bar>" "\<bar>x\<bar> < of_nat n + 1"
    using fl by (simp_all add: n_def of_nat_nat) (linarith)+
  have b: "binade x = int (ilog2 n)" using assms by (simp add: binade_def n_def)
  from ilog2_bounds [OF npos] have lo: "2 ^ ilog2 n \<le> n" and hi: "n + 1 \<le> 2 ^ (ilog2 n + 1)"
    by simp_all
  have "(2::rat) ^ ilog2 n \<le> of_nat n"
    using lo by (metis of_nat_le_iff of_nat_numeral of_nat_power)
  moreover have "(2::rat) powi binade x = 2 ^ ilog2 n" by (simp only: b power_int_of_nat)
  ultimately show "2 powi binade x \<le> \<bar>x\<bar>" using nx(1) by linarith
  have "(of_nat (n + 1) :: rat) \<le> of_nat (2 ^ (ilog2 n + 1))"
    using hi of_nat_le_iff by blast
  then have "(of_nat n + 1 :: rat) \<le> 2 ^ (ilog2 n + 1)" by simp
  moreover have "binade x + 1 = int (ilog2 n + 1)" by (simp add: b)
  then have "(2::rat) powi (binade x + 1) = 2 ^ (ilog2 n + 1)" by (simp only: power_int_of_nat)
  ultimately show "\<bar>x\<bar> < 2 powi (binade x + 1)"
    using nx(2) by linarith
qed

lemma binade_lt1:
  fixes x :: rat
  assumes "x \<noteq> 0" "\<bar>x\<bar> < 1"
  shows "2 powi binade x \<le> \<bar>x\<bar>" and "\<bar>x\<bar> < 2 powi (binade x + 1)"
proof -
  define y where "y = 1 / \<bar>x\<bar>"
  define n where "n = nat (\<lceil>y\<rceil> - 1)"
  define k where "k = ilog2 n"
  have xpos: "0 < \<bar>x\<bar>" using assms by simp
  have y1: "1 < y" using assms xpos by (simp add: y_def)
  then have c2: "2 \<le> \<lceil>y\<rceil>" by (simp add: le_ceiling_iff) 
  then have npos: "0 < n" by (simp add: n_def)
  have n_int: "int n = \<lceil>y\<rceil> - 1" using c2 by (simp add: n_def)
  have ny: "of_nat n < y" "y \<le> of_nat n + 1"
  proof -
    have "of_int (\<lceil>y\<rceil> - 1) < y" by linarith
    then show "of_nat n < y" by (metis n_int of_int_of_nat_eq)
    have "y \<le> of_int \<lceil>y\<rceil>" by linarith
    also have "of_int \<lceil>y\<rceil> = (of_int (int n) + 1 :: rat)" by (simp add: n_int)
    finally show "y \<le> of_nat n + 1" by simp
  qed
  have b: "binade x = - int (Suc k)" "binade x + 1 = - int k"
    using assms by (simp_all add: binade_def n_def k_def y_def)
  from ilog2_bounds [OF npos] have lo: "2 ^ k \<le> n" and hi: "n + 1 \<le> 2 ^ (k + 1)"
    by (simp_all add: k_def)
  have lo': "(2::rat) ^ k \<le> of_nat n"
    using lo by (metis of_nat_le_iff of_nat_numeral of_nat_power)
  have "(of_nat (n + 1) :: rat) \<le> of_nat (2 ^ (k + 1))"
    using hi of_nat_le_iff by blast
  then have hi': "(of_nat n + 1 :: rat) \<le> 2 ^ (k + 1)" by simp
  have yx: "\<bar>x\<bar> = 1 / y" by (simp add: y_def)
  have ypos: "0 < y" using y1 by simp
  have "y \<le> 2 ^ (k + 1)" using ny hi' by linarith
  then have "1 / 2 ^ (k + 1) \<le> 1 / y" using ypos by (simp add: frac_le)
  moreover have "(2::rat) powi (- int (Suc k)) = 1 / 2 ^ (k + 1)"
    by (simp only: power_int_minus_divide power_int_of_nat Suc_eq_plus1)
  ultimately show "2 powi binade x \<le> \<bar>x\<bar>" by (simp only: b(1) yx)
  have "2 ^ k < y" using ny lo' by linarith
  then have "1 / y < 1 / 2 ^ k" using ypos by (simp add: frac_less2)
  moreover have "(2::rat) powi (- int k) = 1 / 2 ^ k"
    by (simp only: power_int_minus_divide power_int_of_nat)
  ultimately show "\<bar>x\<bar> < 2 powi (binade x + 1)" by (simp only: b(2) yx)
qed

lemma binade_bounds:
  fixes x :: rat
  assumes "x \<noteq> 0"
  shows "2 powi binade x \<le> \<bar>x\<bar>" and "\<bar>x\<bar> < 2 powi (binade x + 1)"
  using binade_ge1 [of x] binade_lt1 [of x] assms by (cases "1 \<le> \<bar>x\<bar>"; force)+


lemma rhe_floor_le: "\<lfloor>x\<rfloor> \<le> round_half_even x"
  by (simp add: round_half_even_def Let_def)

lemma rhe_le_floor1: "round_half_even x \<le> \<lfloor>x\<rfloor> + 1"
  by (simp add: round_half_even_def Let_def)

lemma rhe_of_int: "round_half_even (of_int n) = n"
  by (simp add: round_half_even_def Let_def)

lemma rhe_mono: "x \<le> y \<Longrightarrow> round_half_even x \<le> round_half_even y"
proof -
  assume xy: "x \<le> y"
  then have fl: "\<lfloor>x\<rfloor> \<le> \<lfloor>y\<rfloor>" by (rule floor_mono)
  show ?thesis
  proof (cases "\<lfloor>x\<rfloor> < \<lfloor>y\<rfloor>")
    case True
    then show ?thesis using rhe_le_floor1 [of x] rhe_floor_le [of y] by linarith
  next
    case False
    with fl have eq: "\<lfloor>x\<rfloor> = \<lfloor>y\<rfloor>" by simp
    with xy show ?thesis by (auto simp: round_half_even_def Let_def)
  qed
qed

lemma quantum_pos: "0 < quantum x"
  by (simp add: quantum_def zero_less_power_int)

lemma fround_quantum: "x \<noteq> 0 \<Longrightarrow> fround x = of_int (round_half_even (x / quantum x)) * quantum x"
  by (simp add: fround_def)

lemma fround_0: "fround 0 = 0"
  by (simp add: fround_def)

lemma fround_nonneg: "0 \<le> x \<Longrightarrow> 0 \<le> fround x"
proof (cases "x = 0")
  case True
  then show ?thesis by (simp add: fround_0)
next
  case False
  assume "0 \<le> x"
  then have "0 \<le> x / quantum x" using quantum_pos [of x] by simp
  then have "round_half_even 0 \<le> round_half_even (x / quantum x)" by (rule rhe_mono)
  then have "0 \<le> round_half_even (x / quantum x)" using rhe_of_int [of 0] by simp
  then show ?thesis using quantum_pos [of x] False by (simp add: fround_quantum)
qed

lemma fround_nonpos: "x \<le> 0 \<Longrightarrow> fround x \<le> 0"
proof (cases "x = 0")
  case True
  then show ?thesis by (simp add: fround_0)
next
  case False
  assume "x \<le> 0"
  then have "x / quantum x \<le> 0" using quantum_pos [of x] by (simp add: divide_le_0_iff)
  then have "round_half_even (x / quantum x) \<le> round_half_even 0" by (rule rhe_mono)
  then have "round_half_even (x / quantum x) \<le> 0" using rhe_of_int [of 0] by simp
  then show ?thesis using quantum_pos [of x] False
    by (simp add: fround_quantum mult_le_0_iff)
qed

lemma fround_upper:
  assumes "0 < x"
  shows "fround x \<le> 2 powi (fexp x + 1)"
proof -
  have x0: "x \<noteq> 0" using assms by simp
  have "x < 2 powi (binade x + 1)" using binade_bounds(2) [OF x0] assms by simp
  also have "\<dots> \<le> 2 powi (fexp x + 1)"
    by (rule power_int_increasing) (simp_all add: fexp_def)
  finally have xl: "x < 2 powi (fexp x + 1)" .
  have "(2::rat) powi (53 + (fexp x - 52)) = 2 powi 53 * 2 powi (fexp x - 52)"
    by (rule power_int_add) simp
  moreover have "53 + (fexp x - 52) = fexp x + 1" by simp
  ultimately have split: "(2::rat) powi (fexp x + 1) = 2 ^ 53 * quantum x"
    by (simp only: quantum_def power_int_numeral)
  have "x / quantum x \<le> of_int (2 ^ 53)"
    using xl quantum_pos [of x] unfolding split by (simp add: pos_divide_le_eq)
  then have "round_half_even (x / quantum x) \<le> round_half_even (of_int (2 ^ 53))"
    by (rule rhe_mono)
  then have "round_half_even (x / quantum x) \<le> 2 ^ 53" by (simp only: rhe_of_int)
  then have "(of_int (round_half_even (x / quantum x)) :: rat) \<le> of_int (2 ^ 53)"
    by (simp only: of_int_le_iff)
  then have "of_int (round_half_even (x / quantum x)) * quantum x \<le> 2 ^ 53 * quantum x"
    using quantum_pos [of x] by simp
  then show ?thesis by (simp only: fround_quantum [OF x0] split)
qed

lemma fround_lower:
  assumes "0 < x" "- 1022 \<le> binade x"
  shows "2 powi binade x \<le> fround x"
proof -
  have x0: "x \<noteq> 0" using assms by simp
  have fe: "fexp x = binade x" using assms by (simp add: fexp_def)
  have xl: "2 powi binade x \<le> x" using binade_bounds(1) [OF x0] assms by simp
  have "(2::rat) powi (52 + (fexp x - 52)) = 2 powi 52 * 2 powi (fexp x - 52)"
    by (rule power_int_add) simp
  moreover have "52 + (fexp x - 52) = binade x" by (simp add: fe)
  ultimately have split: "(2::rat) powi binade x = 2 ^ 52 * quantum x"
    by (simp only: quantum_def power_int_numeral)
  have "of_int (2 ^ 52) \<le> x / quantum x"
    using xl quantum_pos [of x] unfolding split by (simp add: pos_le_divide_eq)
  then have "round_half_even (of_int (2 ^ 52)) \<le> round_half_even (x / quantum x)"
    by (rule rhe_mono)
  then have "2 ^ 52 \<le> round_half_even (x / quantum x)" by (simp only: rhe_of_int)
  then have "(of_int (2 ^ 52) :: rat) \<le> of_int (round_half_even (x / quantum x))"
    by (simp only: of_int_le_iff)
  then have "2 ^ 52 * quantum x \<le> of_int (round_half_even (x / quantum x)) * quantum x"
    using quantum_pos [of x] by simp
  then show ?thesis by (simp only: fround_quantum [OF x0] split)
qed

lemma binade_mono:
  assumes "0 < x" "x \<le> y"
  shows "binade x \<le> binade y"
proof -
  have "2 powi binade x \<le> x" using binade_bounds(1) [of x] assms by simp
  also have "x \<le> y" by fact
  also have "y < 2 powi (binade y + 1)" using binade_bounds(2) [of y] assms by simp
  finally have lt: "(2::rat) powi binade x < 2 powi (binade y + 1)" .
  have "binade x < binade y + 1"
  proof (rule ccontr)
    assume "\<not> binade x < binade y + 1"
    then have "binade y + 1 \<le> binade x" by simp
    then have "(2::rat) powi (binade y + 1) \<le> 2 powi binade x"
      by (rule power_int_increasing) simp
    with lt show False by simp
  qed
  then show ?thesis by simp
qed

lemma fround_mono:
  assumes "0 \<le> x" "x \<le> y"
  shows "fround x \<le> fround y"
proof (cases "x = 0")
  case True
  then show ?thesis using assms fround_nonneg [of y] by (simp add: fround_0)
next
  case False
  then have xp: "0 < x" and yp: "0 < y" using assms by simp_all
  have le: "fexp x \<le> fexp y" using binade_mono [OF xp assms(2)] by (simp add: fexp_def)
  show ?thesis
  proof (cases "fexp x = fexp y")
    case True
    then have q: "quantum x = quantum y" by (simp add: quantum_def)
    have "x / quantum y \<le> y / quantum y"
      using assms(2) quantum_pos [of y] by (simp add: divide_right_mono)
    then have "round_half_even (x / quantum y) \<le> round_half_even (y / quantum y)"
      by (rule rhe_mono)
    then have "(of_int (round_half_even (x / quantum y)) :: rat) * quantum y
        \<le> of_int (round_half_even (y / quantum y)) * quantum y"
      using quantum_pos [of y] by simp
    then show ?thesis using xp yp by (simp add: fround_quantum q)
  next
    case False
    with le have lt: "fexp x < fexp y" by simp
    then have fy: "fexp y = binade y" "- 1022 \<le> binade y" by (auto simp: fexp_def)
    have "fround x \<le> 2 powi (fexp x + 1)" by (rule fround_upper [OF xp])
    also have "\<dots> \<le> 2 powi binade y"
      using lt by (intro power_int_increasing) (simp_all add: fy(1))
    also have "\<dots> \<le> fround y" by (rule fround_lower [OF yp fy(2)])
    finally show ?thesis .
  qed
qed

lemma fround_1: "fround 1 = 1"
  by code_simp

lemma fround_100: "fround 100 = 100"
  by code_simp


section \<open>levenshteinDistance computes the edit distance\<close>

lemma lev_0_right [simp]: "lev a b i 0 = i"
  by (cases i) simp_all

lemma lev_le_Suc_j: "lev a b i (Suc j) \<le> lev a b i j + 1"
  by (cases i) simp_all

lemma lev_le_Suc_i: "lev a b (Suc i) j \<le> lev a b i j + 1"
  by (cases j) simp_all

lemma lev_lower_i: "lev a b i j \<le> lev a b (Suc i) j + 1"
proof (induction j arbitrary: i)
  case 0
  show ?case by simp
next
  case (Suc j)
  have 1: "lev a b i (Suc j) \<le> lev a b i j + 1" by (rule lev_le_Suc_j)
  have 2: "lev a b i j \<le> lev a b (Suc i) j + 1" by (rule Suc.IH)
  show ?case using 1 2 by (simp add: min_def)
qed

lemma lev_lower_j: "lev a b i j \<le> lev a b i (Suc j) + 1"
proof (induction i arbitrary: j)
  case 0
  show ?case by simp
next
  case (Suc i)
  have 1: "lev a b (Suc i) j \<le> lev a b i j + 1" by (rule lev_le_Suc_i)
  have 2: "lev a b i j \<le> lev a b i (Suc j) + 1" by (rule Suc.IH)
  show ?case using 1 2 by (simp add: min_def)
qed

lemma lev_Suc_eq:
  "a ! i = b ! j \<Longrightarrow> lev a b (Suc i) (Suc j) = lev a b i j"
  using lev_lower_i [of a b i j] lev_lower_j [of a b i j] by (simp add: min_def)

lemma lev_Suc_neq:
  "a ! i \<noteq> b ! j \<Longrightarrow>
   lev a b (Suc i) (Suc j) = 1 + min (min (lev a b i (Suc j)) (lev a b (Suc i) j)) (lev a b i j)"
  by (simp add: min_def)

lemma lev_le_max: "lev a b i j \<le> max i j"
proof (induction a b i j rule: lev.induct)
  case (3 a b i j)
  have "lev a b (Suc i) (Suc j) \<le> lev a b i j + 1" by (simp add: min_def)
  with 3(3) show ?case by simp
qed simp_all

lemma dp_set_length [simp]: "length (dp_set dp i j v) = length dp"
  by (simp add: dp_set_def)

lemma dp_set_row_length [simp]: "length (dp_set dp i j v ! r) = length (dp ! r)"
  by (cases "i < length dp"; cases "r = i") (simp_all add: dp_set_def list_update_beyond)

lemma dp_set_nth:
  "i < length dp \<Longrightarrow> j < length (dp ! i) \<Longrightarrow>
   dp_set dp i j v ! r ! c = (if r = i \<and> c = j then v else dp ! r ! c)"
  by (cases "r = i"; cases "c = j") (simp_all add: dp_set_def)

lemma table_ok_dp_set: "table_ok a b dp \<Longrightarrow> table_ok a b (dp_set dp i j v)"
  by (simp add: table_ok_def)

lemma dp_set_nth_ok:
  "table_ok a b dp \<Longrightarrow> i \<le> length a \<Longrightarrow> j \<le> length b \<Longrightarrow>
   dp_set dp i j v ! r ! c = (if r = i \<and> c = j then v else dp ! r ! c)"
  by (rule dp_set_nth) (simp_all add: table_ok_def)

lemma fold_upt_Suc: "lo \<le> k \<Longrightarrow> fold f [lo..<Suc k] s = f k (fold f [lo..<k] s)"
  by simp

lemma table_ok_init: "table_ok a b (replicate (length a + 1) (replicate (length b + 1) 0))"
  unfolding table_ok_def by (auto simp del: replicate.simps)

text \<open>The first initialisation loop.\<close>

lemma init_rows:
  assumes "table_ok a b dp0" "k \<le> length a + 1"
  shows "table_ok a b (fold (\<lambda>i dp. dp_set dp i 0 i) [0..<k] dp0)
    \<and> (\<forall>r < k. fold (\<lambda>i dp. dp_set dp i 0 i) [0..<k] dp0 ! r ! 0 = r)"
  using assms(2)
proof (induction k)
  case 0
  show ?case using assms(1) by simp
next
  case (Suc k)
  define dp where "dp = fold (\<lambda>i dp. dp_set dp i 0 i) [0..<k] dp0"
  from Suc have ok: "table_ok a b dp" and old: "\<forall>r < k. dp ! r ! 0 = r" and k: "k \<le> length a"
    by (simp_all add: dp_def)
  have step: "fold (\<lambda>i dp. dp_set dp i 0 i) [0..<Suc k] dp0 = dp_set dp k 0 k"
    by (simp add: dp_def)
  show ?case unfolding step
    using old by (auto simp: table_ok_dp_set [OF ok] dp_set_nth_ok [OF ok k] less_Suc_eq)
qed

text \<open>The second initialisation loop.\<close>

lemma init_cols:
  assumes "table_ok a b dp1" "\<forall>r \<le> length a. dp1 ! r ! 0 = r" "k \<le> length b + 1"
  shows "table_ok a b (fold (\<lambda>j dp. dp_set dp 0 j j) [0..<k] dp1)
    \<and> (\<forall>r \<le> length a. fold (\<lambda>j dp. dp_set dp 0 j j) [0..<k] dp1 ! r ! 0 = r)
    \<and> (\<forall>c < k. fold (\<lambda>j dp. dp_set dp 0 j j) [0..<k] dp1 ! 0 ! c = c)"
  using assms(3)
proof (induction k)
  case 0
  show ?case using assms(1,2) by simp
next
  case (Suc k)
  define dp where "dp = fold (\<lambda>j dp. dp_set dp 0 j j) [0..<k] dp1"
  from Suc have ok: "table_ok a b dp" and col: "\<forall>r \<le> length a. dp ! r ! 0 = r"
    and old: "\<forall>c < k. dp ! 0 ! c = c" and k: "k \<le> length b"
    by (simp_all add: dp_def)
  have step: "fold (\<lambda>j dp. dp_set dp 0 j j) [0..<Suc k] dp1 = dp_set dp 0 k k"
    by (simp add: dp_def)
  have z: "0 \<le> length a" by simp
  show ?case unfolding step
    using old col by (auto simp: table_ok_dp_set [OF ok] dp_set_nth_ok [OF ok z k] less_Suc_eq)
qed

lemma filled_init:
  assumes "table_ok a b dp" "\<forall>r \<le> length a. dp ! r ! 0 = r" "\<forall>c \<le> length b. dp ! 0 ! c = c"
  shows "filled a b dp 0 0"
  using assms by (auto simp: filled_def)

text \<open>One cell of the main loop.\<close>

lemma filled_cell:
  assumes f: "filled a b dp i k" and i: "i < length a" and k: "k < length b"
  shows "filled a b (lev_cell a b (Suc i) (Suc k) dp) i (Suc k)"
proof -
  from f have ok: "table_ok a b dp" by (simp add: filled_def)
  have rd: "\<And>r c. r \<le> length a \<Longrightarrow> c \<le> length b \<Longrightarrow> r \<le> i \<or> (r = i + 1 \<and> c \<le> k) \<or> c = 0
      \<Longrightarrow> dp ! r ! c = lev a b r c"
    using f unfolding filled_def by blast
  have r1: "dp ! i ! Suc k = lev a b i (Suc k)" using i k by (intro rd) simp_all
  have r2: "dp ! Suc i ! k = lev a b (Suc i) k" using i k by (intro rd) simp_all
  have r3: "dp ! i ! k = lev a b i k" using i k by (intro rd) simp_all
  have si: "Suc i \<le> length a" and sk: "Suc k \<le> length b" using i k by simp_all
  have cell: "lev_cell a b (Suc i) (Suc k) dp = dp_set dp (Suc i) (Suc k) (lev a b (Suc i) (Suc k))"
  proof (cases "a ! i = b ! k")
    case True
    then show ?thesis by (simp add: lev_cell_def r3 lev_Suc_eq del: lev.simps(3))
  next
    case False
    then show ?thesis by (simp add: lev_cell_def r1 r2 r3 lev_Suc_neq del: lev.simps(3))
  qed
  show ?thesis
    unfolding cell filled_def
  proof (intro conjI allI impI)
    show "table_ok a b (dp_set dp (Suc i) (Suc k) (lev a b (Suc i) (Suc k)))"
      by (rule table_ok_dp_set [OF ok])
  next
    fix r c
    assume r: "r \<le> length a" and c: "c \<le> length b"
      and h: "r \<le> i \<or> r = i + 1 \<and> c \<le> Suc k \<or> c = 0"
    show "dp_set dp (Suc i) (Suc k) (lev a b (Suc i) (Suc k)) ! r ! c = lev a b r c"
    proof (cases "r = Suc i \<and> c = Suc k")
      case True
      then show ?thesis by (simp add: dp_set_nth_ok [OF ok si sk])
    next
      case False
      then have "r \<le> i \<or> (r = i + 1 \<and> c \<le> k) \<or> c = 0" using h by auto
      then have "dp ! r ! c = lev a b r c" by (rule rd [OF r c])
      with False show ?thesis by (simp add: dp_set_nth_ok [OF ok si sk])
    qed
  qed
qed

lemma inner_loop:
  assumes "filled a b dp i 0" "i < length a" "k \<le> length b"
  shows "filled a b (fold (lev_cell a b (Suc i)) [1..<Suc k] dp) i k"
  using assms(3)
proof (induction k)
  case 0
  show ?case using assms(1) by simp
next
  case (Suc k)
  then have ih: "filled a b (fold (lev_cell a b (Suc i)) [1..<Suc k] dp) i k" and k: "k < length b"
    by simp_all
  have "fold (lev_cell a b (Suc i)) [1..<Suc (Suc k)] dp
      = lev_cell a b (Suc i) (Suc k) (fold (lev_cell a b (Suc i)) [1..<Suc k] dp)"
    by simp
  then show ?case using filled_cell [OF ih assms(2) k] by simp
qed

lemma filled_next_row: "filled a b dp i (length b) \<Longrightarrow> filled a b dp (Suc i) 0"
  by (auto simp: filled_def le_Suc_eq)

lemma outer_loop:
  assumes "filled a b dp 0 0" "k \<le> length a"
  shows "filled a b (fold (\<lambda>i. fold (lev_cell a b i) [1..<length b + 1]) [1..<Suc k] dp) k 0"
  using assms(2)
proof (induction k)
  case 0
  show ?case using assms(1) by simp
next
  case (Suc k)
  define t where "t = fold (\<lambda>i. fold (lev_cell a b i) [1..<length b + 1]) [1..<Suc k] dp"
  from Suc have ih: "filled a b t k 0" and k: "k < length a" by (simp_all add: t_def)
  have "fold (\<lambda>i. fold (lev_cell a b i) [1..<length b + 1]) [1..<Suc (Suc k)] dp
      = fold (lev_cell a b (Suc k)) [1..<Suc (length b)] t"
    by (simp add: t_def)
  moreover have "filled a b (fold (lev_cell a b (Suc k)) [1..<Suc (length b)] t) k (length b)"
    by (rule inner_loop [OF ih k]) simp
  ultimately show ?case by (simp add: filled_next_row)
qed

lemma levenshteinDistance_editDistance: "levenshteinDistance a b = editDistance a b"
proof -
  define dp0 :: "nat list list" where "dp0 = replicate (length a + 1) (replicate (length b + 1) 0)"
  define dp1 where "dp1 = fold (\<lambda>i dp. dp_set dp i 0 i) [0..<length a + 1] dp0"
  define dp2 where "dp2 = fold (\<lambda>j dp. dp_set dp 0 j j) [0..<length b + 1] dp1"
  define dp3 where "dp3 = fold (\<lambda>i. fold (lev_cell a b i) [1..<length b + 1]) [1..<length a + 1] dp2"
  have ok0: "table_ok a b dp0" unfolding dp0_def by (rule table_ok_init)
  have 1: "table_ok a b dp1" "\<forall>r \<le> length a. dp1 ! r ! 0 = r"
    using init_rows [OF ok0, of "length a + 1"] by (simp_all add: dp1_def less_Suc_eq_le)
  have 2: "table_ok a b dp2" "\<forall>r \<le> length a. dp2 ! r ! 0 = r" "\<forall>c \<le> length b. dp2 ! 0 ! c = c"
    using init_cols [OF 1, of "length b + 1"] by (simp_all add: dp2_def less_Suc_eq_le)
  have "filled a b dp3 (length a) 0"
    using outer_loop [OF filled_init [OF 2], of "length a"] by (simp add: dp3_def)
  then have "dp3 ! length a ! length b = lev a b (length a) (length b)"
    by (simp add: filled_def)
  moreover have "levenshteinDistance a b = dp3 ! length a ! length b"
    by (simp add: levenshteinDistance_def Let_def dp3_def dp2_def dp1_def dp0_def)
  ultimately show ?thesis by (simp add: editDistance_def)
qed

section \<open>The main loop of compare\<close>

lemma window_fold:
  "s \<le> e \<Longrightarrow>
   (\<forall>j. s \<le> j \<and> j < e \<and> int j \<notin> used \<longrightarrow>
        adjustedSim ow sw i j \<le> bestSimilarity (fold (window_step used ow sw i) [s..<e] best0))
   \<and> ((fold (window_step used ow sw i) [s..<e] best0 = best0)
      \<or> (\<exists>j. s \<le> j \<and> j < e \<and> int j \<notin> used
             \<and> fold (window_step used ow sw i) [s..<e] best0
                 = \<lparr>bestMatch = Some (sw ! j), bestSimilarity = adjustedSim ow sw i j, bestIndex = int j\<rparr>
             \<and> 0 < adjustedSim ow sw i j
             \<and> (\<forall>j'. s \<le> j' \<and> j' < j \<and> int j' \<notin> used \<longrightarrow>
                    adjustedSim ow sw i j' < adjustedSim ow sw i j)))"
proof (induction e)
  case 0
  then show ?case by simp
next
  case (Suc e)
  show ?case
  proof (cases "s = Suc e")
    case True
    then show ?thesis by simp
  next
    case False
    with Suc.prems have se: "s \<le> e" by simp
    define b where "b = fold (window_step used ow sw i) [s..<e] best0"
    have step: "fold (window_step used ow sw i) [s..<Suc e] best0 = window_step used ow sw i e b"
      using se by (simp add: b_def)
    from Suc.IH [OF se]
    have ub: "\<And>j. s \<le> j \<Longrightarrow> j < e \<Longrightarrow> int j \<notin> used \<Longrightarrow> adjustedSim ow sw i j \<le> bestSimilarity b"
      and ch: "b = best0 \<or> (\<exists>j. s \<le> j \<and> j < e \<and> int j \<notin> used
             \<and> b = \<lparr>bestMatch = Some (sw ! j), bestSimilarity = adjustedSim ow sw i j, bestIndex = int j\<rparr>
             \<and> 0 < adjustedSim ow sw i j
             \<and> (\<forall>j'. s \<le> j' \<and> j' < j \<and> int j' \<notin> used \<longrightarrow>
                    adjustedSim ow sw i j' < adjustedSim ow sw i j))"
      unfolding b_def by blast+
    have b0: "0 \<le> bestSimilarity b" using ch by (auto simp: best0_def)
    consider (used) "int e \<in> used"
      | (better) "int e \<notin> used" "adjustedSim ow sw i e > bestSimilarity b"
      | (keep) "int e \<notin> used" "\<not> adjustedSim ow sw i e > bestSimilarity b"
      by blast
    then show ?thesis
    proof cases
      case used
      then have eq: "window_step used ow sw i e b = b" by (simp add: window_step_def)
      show ?thesis unfolding step eq
      proof (intro conjI allI impI)
        fix j assume "s \<le> j \<and> j < Suc e \<and> int j \<notin> used"
        with used have "s \<le> j" "j < e" "int j \<notin> used" by (auto simp: less_Suc_eq)
        then show "adjustedSim ow sw i j \<le> bestSimilarity b" by (rule ub)
      next
        show "b = best0 \<or> (\<exists>j. s \<le> j \<and> j < Suc e \<and> int j \<notin> used
             \<and> b = \<lparr>bestMatch = Some (sw ! j), bestSimilarity = adjustedSim ow sw i j, bestIndex = int j\<rparr>
             \<and> 0 < adjustedSim ow sw i j
             \<and> (\<forall>j'. s \<le> j' \<and> j' < j \<and> int j' \<notin> used \<longrightarrow>
                    adjustedSim ow sw i j' < adjustedSim ow sw i j))"
          using ch less_Suc_eq by blast
      qed
    next
      case better
      then have eq: "window_step used ow sw i e b
          = \<lparr>bestMatch = Some (sw ! e), bestSimilarity = adjustedSim ow sw i e, bestIndex = int e\<rparr>"
        by (simp add: window_step_def)
      have lt: "\<And>j. s \<le> j \<Longrightarrow> j < e \<Longrightarrow> int j \<notin> used \<Longrightarrow> adjustedSim ow sw i j < adjustedSim ow sw i e"
        using ub better(2) by force
      show ?thesis unfolding step eq
      proof (intro conjI allI impI)
        fix j assume "s \<le> j \<and> j < Suc e \<and> int j \<notin> used"
        then show "adjustedSim ow sw i j
          \<le> bestSimilarity \<lparr>bestMatch = Some (sw ! e), bestSimilarity = adjustedSim ow sw i e, bestIndex = int e\<rparr>"
          using lt [of j] by (cases "j = e") (auto simp: less_Suc_eq)
      next
        have "s \<le> e \<and> e < Suc e \<and> int e \<notin> used \<and> 0 < adjustedSim ow sw i e
             \<and> (\<forall>j'. s \<le> j' \<and> j' < e \<and> int j' \<notin> used \<longrightarrow>
                    adjustedSim ow sw i j' < adjustedSim ow sw i e)"
          using se better b0 lt by auto
        then show "\<lparr>bestMatch = Some (sw ! e), bestSimilarity = adjustedSim ow sw i e, bestIndex = int e\<rparr> = best0
           \<or> (\<exists>j. s \<le> j \<and> j < Suc e \<and> int j \<notin> used
             \<and> \<lparr>bestMatch = Some (sw ! e), bestSimilarity = adjustedSim ow sw i e, bestIndex = int e\<rparr>
                 = \<lparr>bestMatch = Some (sw ! j), bestSimilarity = adjustedSim ow sw i j, bestIndex = int j\<rparr>
             \<and> 0 < adjustedSim ow sw i j
             \<and> (\<forall>j'. s \<le> j' \<and> j' < j \<and> int j' \<notin> used \<longrightarrow>
                    adjustedSim ow sw i j' < adjustedSim ow sw i j))"
          by blast
      qed
    next
      case keep
      then have eq: "window_step used ow sw i e b = b" by (simp add: window_step_def)
      show ?thesis unfolding step eq
      proof (intro conjI allI impI)
        fix j assume "s \<le> j \<and> j < Suc e \<and> int j \<notin> used"
        then show "adjustedSim ow sw i j \<le> bestSimilarity b"
          using ub [of j] keep(2) by (cases "j = e") (auto simp: less_Suc_eq)
      next
        show "b = best0 \<or> (\<exists>j. s \<le> j \<and> j < Suc e \<and> int j \<notin> used
             \<and> b = \<lparr>bestMatch = Some (sw ! j), bestSimilarity = adjustedSim ow sw i j, bestIndex = int j\<rparr>
             \<and> 0 < adjustedSim ow sw i j
             \<and> (\<forall>j'. s \<le> j' \<and> j' < j \<and> int j' \<notin> used \<longrightarrow>
                    adjustedSim ow sw i j' < adjustedSim ow sw i j))"
          using ch less_Suc_eq by blast
      qed
    qed
  qed
qed

lemma searchEnd_le: "searchEnd sw i \<le> length sw"
  by (simp add: searchEnd_def)

lemma window_scan_ok: "best_ok used ow sw i (window_scan used ow sw i)"
proof (cases "searchStart i \<le> searchEnd sw i")
  case True
  from window_fold [OF True, of used ow sw i]
  have "window_scan used ow sw i = best0
     \<or> (\<exists>j. searchStart i \<le> j \<and> j < searchEnd sw i \<and> int j \<notin> used
           \<and> window_scan used ow sw i
               = \<lparr>bestMatch = Some (sw ! j), bestSimilarity = adjustedSim ow sw i j, bestIndex = int j\<rparr>
           \<and> 0 < adjustedSim ow sw i j)"
    unfolding window_scan_def by blast
  then show ?thesis
  proof
    assume "window_scan used ow sw i = best0"
    then show ?thesis by (simp add: best_ok_def)
  next
    assume "\<exists>j. searchStart i \<le> j \<and> j < searchEnd sw i \<and> int j \<notin> used
           \<and> window_scan used ow sw i
               = \<lparr>bestMatch = Some (sw ! j), bestSimilarity = adjustedSim ow sw i j, bestIndex = int j\<rparr>
           \<and> 0 < adjustedSim ow sw i j"
    then obtain j where j: "searchStart i \<le> j" "j < searchEnd sw i" "int j \<notin> used"
      "window_scan used ow sw i
         = \<lparr>bestMatch = Some (sw ! j), bestSimilarity = adjustedSim ow sw i j, bestIndex = int j\<rparr>"
      "0 < adjustedSim ow sw i j" by blast
    have "j < length sw" using j(2) searchEnd_le [of sw i] by simp
    then show ?thesis unfolding best_ok_def using j by (auto simp: in_window_def)
  qed
next
  case False
  then have "window_scan used ow sw i = best0" by (simp add: window_scan_def)
  then show ?thesis by (simp add: best_ok_def)
qed

lemma exact_scan_cases:
  "exact_scan used ow sw i js b = b
   \<or> (\<exists>j \<in> set js. exact_hit used ow sw i j
        \<and> exact_scan used ow sw i js b
            = \<lparr>bestMatch = Some (sw ! j), bestSimilarity = 1, bestIndex = int j\<rparr>)"
  by (induction js) (auto simp: exact_hit_def in_window_def)

lemma exact_scan_none:
  "\<forall>j \<in> set js. \<not> exact_hit used ow sw i j \<Longrightarrow> exact_scan used ow sw i js b = b"
  by (induction js) (auto simp: exact_hit_def in_window_def)

lemma exact_scan_first:
  "\<forall>j' \<in> set pre. \<not> exact_hit used ow sw i j' \<Longrightarrow> exact_hit used ow sw i j \<Longrightarrow>
   exact_scan used ow sw i (pre @ j # post) b
     = \<lparr>bestMatch = Some (sw ! j), bestSimilarity = 1, bestIndex = int j\<rparr>"
  by (induction pre) (auto simp: exact_hit_def in_window_def)

lemma find_best_ok: "best_ok used ow sw i (find_best used ow sw i)"
proof (cases "bestSimilarity (window_scan used ow sw i) < lit_0_9")
  case False
  then show ?thesis using window_scan_ok [of used ow sw i] by (simp add: find_best_def)
next
  case True
  then have fb: "find_best used ow sw i
      = exact_scan used ow sw i [0..<length sw] (window_scan used ow sw i)"
    by (simp add: find_best_def)
  from exact_scan_cases [of used ow sw i "[0..<length sw]" "window_scan used ow sw i"]
  show ?thesis
  proof
    assume "exact_scan used ow sw i [0..<length sw] (window_scan used ow sw i) = window_scan used ow sw i"
    then show ?thesis using window_scan_ok [of used ow sw i] by (simp add: fb)
  next
    assume "\<exists>j \<in> set [0..<length sw]. exact_hit used ow sw i j
        \<and> exact_scan used ow sw i [0..<length sw] (window_scan used ow sw i)
            = \<lparr>bestMatch = Some (sw ! j), bestSimilarity = 1, bestIndex = int j\<rparr>"
    then obtain j where "j < length sw" "exact_hit used ow sw i j"
      "find_best used ow sw i = \<lparr>bestMatch = Some (sw ! j), bestSimilarity = 1, bestIndex = int j\<rparr>"
      unfolding fb by auto
    then show ?thesis unfolding best_ok_def by (auto simp: exact_hit_def)
  qed
qed

lemma truthy_best_ok:
  assumes "best_ok used ow sw i b" "truthy (bestMatch b)"
  obtains j where "j < length sw" "int j \<notin> used" "bestMatch b = Some (sw ! j)" "sw ! j \<noteq> []"
    "bestIndex b = int j" "0 < bestSimilarity b"
    "(in_window sw i j \<and> bestSimilarity b = adjustedSim ow sw i j)
      \<or> (\<not> in_window sw i j \<and> sw ! j = ow ! i \<and> bestSimilarity b = 1)"
proof -
  from assms(2) have "b \<noteq> best0" by (auto simp: truthy_def best0_def)
  with assms(1) obtain j where j: "j < length sw" "int j \<notin> used" "bestMatch b = Some (sw ! j)"
    "bestIndex b = int j"
    "(in_window sw i j \<and> bestSimilarity b = adjustedSim ow sw i j \<and> 0 < bestSimilarity b)
      \<or> (exact_hit used ow sw i j \<and> bestSimilarity b = 1)"
    unfolding best_ok_def by blast
  from assms(2) j(3) have ne: "sw ! j \<noteq> []" by (simp add: truthy_def)
  from j(5) have "0 < bestSimilarity b" by auto
  with ne j that show ?thesis unfolding exact_hit_def by blast
qed

lemma classify_cases [case_names correct incorrect missed]:
  obtains
    "truthy (bestMatch b)" "ge_num (bestSimilarity b) thr"
    "classify thr w b (used, r) =
       (insert (bestIndex b) used,
        r\<lparr>wordResults := wordResults r @
             [\<lparr>original = w, spoken = the (bestMatch b), status = Correct, score = bestSimilarity b\<rparr>],
           correctCount := correctCount r + 1\<rparr>)"
  | "truthy (bestMatch b)" "\<not> ge_num (bestSimilarity b) thr" "lit_0_5 \<le> bestSimilarity b"
    "classify thr w b (used, r) =
       (insert (bestIndex b) used,
        r\<lparr>wordResults := wordResults r @
             [\<lparr>original = w, spoken = the (bestMatch b), status = Incorrect, score = bestSimilarity b\<rparr>],
           incorrectCount := incorrectCount r + 1\<rparr>)"
  | "\<not> truthy (bestMatch b) \<or> (\<not> ge_num (bestSimilarity b) thr \<and> bestSimilarity b < lit_0_5)"
    "classify thr w b (used, r) =
       (used,
        r\<lparr>wordResults := wordResults r @
             [\<lparr>original = w, spoken = [], status = Missed, score = 0\<rparr>],
           missedCount := missedCount r + 1\<rparr>)"
  by (cases "truthy (bestMatch b) \<and> ge_num (bestSimilarity b) thr";
      cases "truthy (bestMatch b) \<and> lit_0_5 \<le> bestSimilarity b")
     (auto simp: classify_def not_le)

lemma count_status_snoc:
  "count_status s (ws @ [w]) = count_status s ws + (if status w = s then 1 else 0)"
  by (simp add: count_status_def)

lemma loop_inv_step:
  assumes inv: "loop_inv thr ow sw k st"
  shows "loop_inv thr ow sw (Suc k) (compare_step thr ow sw k st)"
proof -
  obtain used r where st: "st = (used, r)" by (cases st)
  define b where "b = find_best used ow sw k"
  have ok: "best_ok used ow sw k b" unfolding b_def by (rule find_best_ok)
  have step: "compare_step thr ow sw k st = classify thr (ow ! k) b (used, r)"
    by (simp add: compare_step_def st b_def)
  from inv have r: "originalWords r = ow" "spokenWords r = sw" "length (wordResults r) = k"
    and recs: "\<And>i. i < k \<Longrightarrow> record_ok thr ow sw i (wordResults r ! i)"
    and cnt: "correctCount r = count_status Correct (wordResults r)"
      "incorrectCount r = count_status Incorrect (wordResults r)"
      "missedCount r = count_status Missed (wordResults r)"
    and us: "finite used" "used \<subseteq> int ` {0..<length sw}"
      "card used = correctCount r + incorrectCount r"
    by (simp_all add: loop_inv_def st)
  have recs': "\<And>w i. record_ok thr ow sw k w \<Longrightarrow> i < Suc k \<Longrightarrow>
      record_ok thr ow sw i ((wordResults r @ [w]) ! i)"
    using recs r(3) by (auto simp: nth_append less_Suc_eq)
  show ?thesis
  proof (cases rule: classify_cases [of b thr "ow ! k" used r])
    case correct
    from truthy_best_ok [OF ok correct(1)]
    obtain j where j: "j < length sw" "int j \<notin> used" "bestMatch b = Some (sw ! j)" "sw ! j \<noteq> []"
      "bestIndex b = int j" "0 < bestSimilarity b"
      "(in_window sw k j \<and> bestSimilarity b = adjustedSim ow sw k j)
        \<or> (\<not> in_window sw k j \<and> sw ! j = ow ! k \<and> bestSimilarity b = 1)" by blast
    have rec: "record_ok thr ow sw k
        \<lparr>original = ow ! k, spoken = the (bestMatch b), status = Correct, score = bestSimilarity b\<rparr>"
      using j correct(2) by (auto simp: record_ok_def matched_def)
    have sub: "insert (int j) used \<subseteq> int ` {0..<length sw}" using us(2) j(1) by auto
    show ?thesis unfolding step correct(3) loop_inv_def
      using r cnt us j(2,5) sub recs' [OF rec] by (simp add: count_status_snoc)
  next
    case incorrect
    from truthy_best_ok [OF ok incorrect(1)]
    obtain j where j: "j < length sw" "int j \<notin> used" "bestMatch b = Some (sw ! j)" "sw ! j \<noteq> []"
      "bestIndex b = int j" "0 < bestSimilarity b"
      "(in_window sw k j \<and> bestSimilarity b = adjustedSim ow sw k j)
        \<or> (\<not> in_window sw k j \<and> sw ! j = ow ! k \<and> bestSimilarity b = 1)" by blast
    have rec: "record_ok thr ow sw k
        \<lparr>original = ow ! k, spoken = the (bestMatch b), status = Incorrect, score = bestSimilarity b\<rparr>"
      using j incorrect(2,3) by (auto simp: record_ok_def matched_def)
    have sub: "insert (int j) used \<subseteq> int ` {0..<length sw}" using us(2) j(1) by auto
    show ?thesis unfolding step incorrect(4) loop_inv_def
      using r cnt us j(2,5) sub recs' [OF rec] by (simp add: count_status_snoc)
  next
    case missed
    have rec: "record_ok thr ow sw k
        \<lparr>original = ow ! k, spoken = [], status = Missed, score = 0\<rparr>"
      by (simp add: record_ok_def)
    show ?thesis unfolding step missed(2) loop_inv_def
      using r cnt us recs' [OF rec] by (simp add: count_status_snoc)
  qed
qed

lemma compare_loop_Suc:
  "compare_loop thr ow sw (Suc k) = compare_step thr ow sw k (compare_loop thr ow sw k)"
  by (simp add: compare_loop_def)

lemma loop_inv_loop: "loop_inv thr ow sw k (compare_loop thr ow sw k)"
proof (induction k)
  case 0
  show ?case by (simp add: loop_inv_def compare_loop_def results0_def count_status_def)
next
  case (Suc k)
  then show ?case unfolding compare_loop_Suc by (rule loop_inv_step)
qed

lemma count_status_total:
  "count_status Correct ws + count_status Incorrect ws + count_status Missed ws = length ws"
proof (induction ws)
  case Nil
  show ?case by (simp add: count_status_def)
next
  case (Cons w ws)
  then show ?case by (cases "status w") (simp_all add: count_status_def)
qed

section \<open>Results of compare\<close>

lemma compare_eq:
  "compare lc originalText spokenText thr =
     finish (compare_loop (threshold thr) (tokenize lc originalText) (tokenize lc spokenText)
               (length (tokenize lc originalText)))"
  by (simp add: compare_def threshold_def Let_def)

lemma finish_fields:
  "wordResults (finish st) = wordResults (snd st)"
  "originalWords (finish st) = originalWords (snd st)"
  "spokenWords (finish st) = spokenWords (snd st)"
  "correctCount (finish st) = correctCount (snd st)"
  "incorrectCount (finish st) = incorrectCount (snd st)"
  "missedCount (finish st) = missedCount (snd st)"
  "extraCount (finish st) = max 0 (int (length (spokenWords (snd st))) - int (card (fst st)))"
  by (cases st; simp add: finish_def Let_def)+

lemma finish_accuracy:
  "accuracy (finish st) =
     (if length (originalWords (snd st)) > 0
      then Math_round (fmul (fdiv (of_nat (correctCount (snd st)))
                                  (of_nat (length (originalWords (snd st))))) 100)
      else accuracy (snd st))"
  by (cases st) (simp add: finish_def Let_def)

lemma loop_accuracy: "accuracy (snd (compare_loop thr ow sw k)) = 0"
proof (induction k)
  case 0
  show ?case by (simp add: compare_loop_def results0_def)
next
  case (Suc k)
  obtain used r where st: "compare_loop thr ow sw k = (used, r)" by (cases "compare_loop thr ow sw k")
  with Suc have "accuracy r = 0" by simp
  then show ?case unfolding compare_loop_Suc st compare_step_def
    by (cases rule: classify_cases [of "find_best (fst (used, r)) ow sw k" thr "ow ! k" used r]) simp_all
qed

lemma loop_originals:
  assumes "loop_inv thr ow sw k st" "k \<le> length ow"
  shows "map original (wordResults (snd st)) = take k ow"
proof (rule nth_equalityI)
  show "length (map original (wordResults (snd st))) = length (take k ow)"
    using assms by (simp add: loop_inv_def)
next
  fix i assume "i < length (map original (wordResults (snd st)))"
  then have i: "i < k" using assms(1) by (simp add: loop_inv_def)
  with assms(1) have "record_ok thr ow sw i (wordResults (snd st) ! i)" by (simp add: loop_inv_def)
  then have "original (wordResults (snd st) ! i) = ow ! i" by (simp add: record_ok_def)
  with i assms show "map original (wordResults (snd st)) ! i = take k ow ! i"
    by (simp add: loop_inv_def)
qed

text \<open>
  Claim C1. For every pair of input texts and every threshold, \<open>compare\<close> returns exactly
  one word result per reference token, in reference order: \<open>wordResults\<close> is as long as
  the reference token sequence and its \<open>original\<close> fields are that sequence; the three
  counts add up to its length, each being the number of word results of its status.
\<close>

theorem compare_total_coverage:
  "length (wordResults (compare lc originalText spokenText thr)) = length (tokenize lc originalText)
   \<and> map original (wordResults (compare lc originalText spokenText thr)) = tokenize lc originalText
   \<and> originalWords (compare lc originalText spokenText thr) = tokenize lc originalText
   \<and> correctCount (compare lc originalText spokenText thr)
       + incorrectCount (compare lc originalText spokenText thr)
       + missedCount (compare lc originalText spokenText thr) = length (tokenize lc originalText)
   \<and> correctCount (compare lc originalText spokenText thr)
       = count_status Correct (wordResults (compare lc originalText spokenText thr))
   \<and> incorrectCount (compare lc originalText spokenText thr)
       = count_status Incorrect (wordResults (compare lc originalText spokenText thr))
   \<and> missedCount (compare lc originalText spokenText thr)
       = count_status Missed (wordResults (compare lc originalText spokenText thr))"
proof -
  define ow where "ow = tokenize lc originalText"
  define sw where "sw = tokenize lc spokenText"
  define st where "st = compare_loop (threshold thr) ow sw (length ow)"
  have inv: "loop_inv (threshold thr) ow sw (length ow) st" unfolding st_def by (rule loop_inv_loop)
  have R: "compare lc originalText spokenText thr = finish st"
    by (simp add: compare_eq st_def ow_def sw_def)
  have len: "length (wordResults (snd st)) = length ow" using inv by (simp add: loop_inv_def)
  have orig: "map original (wordResults (snd st)) = ow" using loop_originals [OF inv] by simp
  have cnt: "correctCount (snd st) = count_status Correct (wordResults (snd st))"
    "incorrectCount (snd st) = count_status Incorrect (wordResults (snd st))"
    "missedCount (snd st) = count_status Missed (wordResults (snd st))"
    "originalWords (snd st) = ow"
    using inv by (simp_all add: loop_inv_def)
  have "correctCount (snd st) + incorrectCount (snd st) + missedCount (snd st) = length ow"
    unfolding cnt using count_status_total [of "wordResults (snd st)"] len by simp
  then show ?thesis unfolding R finish_fields ow_def [symmetric] using len orig cnt by simp
qed

section \<open>similarity\<close>

lemma fround_le_1: "x \<le> 1 \<Longrightarrow> fround x \<le> 1"
proof (cases "0 \<le> x")
  case True
  assume "x \<le> 1"
  with True have "fround x \<le> fround 1" by (rule fround_mono)
  then show ?thesis by (simp add: fround_1)
next
  case False
  then have "fround x \<le> 0" by (intro fround_nonpos) simp
  then show ?thesis by simp
qed

lemma editDistance_le_max: "editDistance a b \<le> max (length a) (length b)"
  unfolding editDistance_def by (rule lev_le_max)

lemma similarity_editDistance:
  "similarity a b =
     (if max (length a) (length b) = 0 then 1
      else fsub 1 (fdiv (of_nat (editDistance a b)) (of_nat (max (length a) (length b)))))"
  by (simp add: similarity_def Let_def levenshteinDistance_editDistance)

lemma similarity_unit: "0 \<le> similarity a b \<and> similarity a b \<le> 1"
proof (cases "max (length a) (length b) = 0")
  case True
  then show ?thesis by (simp add: similarity_editDistance)
next
  case False
  define q :: rat where "q = of_nat (editDistance a b) / of_nat (max (length a) (length b))"
  have "0 < max (length a) (length b)" using False by arith
  then have m: "(0::rat) < of_nat (max (length a) (length b))" by (simp only: of_nat_0_less_iff)
  have "(of_nat (editDistance a b) :: rat) \<le> of_nat (max (length a) (length b))"
    using editDistance_le_max [of a b] of_nat_le_iff by blast
  then have q: "0 \<le> q" "q \<le> 1" using m by (simp_all add: q_def)
  have f: "0 \<le> fround q" "fround q \<le> 1" using q by (simp_all add: fround_nonneg fround_le_1)
  have "0 \<le> fround (1 - fround q)" "fround (1 - fround q) \<le> 1"
    using f by (simp_all add: fround_nonneg fround_le_1)
  moreover have "similarity a b = fround (1 - fround q)"
    by (simp only: similarity_editDistance False if_False fsub_def fdiv_def q_def)
  ultimately show ?thesis by simp
qed

lemma rhe_error: "\<bar>of_int (round_half_even y) - y\<bar> \<le> 1 / 2"
proof -
  have "of_int \<lfloor>y\<rfloor> \<le> y" "y < of_int \<lfloor>y\<rfloor> + 1" by linarith+
  then show ?thesis by (auto simp: round_half_even_def Let_def)
qed

lemma fround_error: "\<bar>fround x - x\<bar> \<le> quantum x / 2"
proof (cases "x = 0")
  case True
  then show ?thesis using quantum_pos [of x] by (simp add: fround_0)
next
  case False
  define q where "q = quantum x"
  have q: "0 < q" unfolding q_def by (rule quantum_pos)
  have "fround x - x = (of_int (round_half_even (x / q)) - x / q) * q"
    using q False by (simp add: fround_quantum q_def [symmetric] algebra_simps)
  then have "\<bar>fround x - x\<bar> = \<bar>of_int (round_half_even (x / q)) - x / q\<bar> * q"
    using q by (simp add: abs_mult)
  also have "\<dots> \<le> (1 / 2) * q"
    using rhe_error [of "x / q"] q by (intro mult_right_mono) simp_all
  finally show ?thesis by (simp add: q_def)
qed

lemma binade_less:
  assumes "0 < x" "x < 2 powi k"
  shows "binade x < k"
proof (rule ccontr)
  assume "\<not> binade x < k"
  then have "k \<le> binade x" by simp
  then have "(2::rat) powi k \<le> 2 powi binade x" by (rule power_int_increasing) simp
  also have "\<dots> \<le> x" using binade_bounds(1) [of x] assms(1) by simp
  finally show False using assms(2) by simp
qed

lemma quantum_le:
  assumes "0 < x" "x < 2 powi k" "- 1021 \<le> k"
  shows "quantum x \<le> 2 powi (k - 53)"
proof -
  have "binade x < k" using assms(1,2) by (rule binade_less)
  then have "fexp x - 52 \<le> k - 53" using assms(3) by (simp add: fexp_def)
  then show ?thesis unfolding quantum_def by (rule power_int_increasing) simp
qed

lemma fround_error_unit:
  assumes "0 \<le> x" "x \<le> 1"
  shows "\<bar>fround x - x\<bar> \<le> 1 / 2 ^ 54"
proof -
  consider "x = 0" | "x = 1" | "0 < x" "x < 1" using assms by fastforce
  then show ?thesis
  proof cases
    case 1
    then show ?thesis by (simp add: fround_0)
  next
    case 2
    then show ?thesis by (simp add: fround_1)
  next
    case 3
    have "quantum x \<le> 2 powi (0 - 53)" using 3 by (intro quantum_le) simp_all
    also have "(2::rat) powi (0 - 53) = 1 / 2 ^ 53" by (simp add: power_int_minus_divide)
    finally have "quantum x / 2 \<le> 1 / 2 ^ 54" by simp
    with fround_error [of x] show ?thesis by linarith
  qed
qed

lemma fround_error_100:
  assumes "0 \<le> x" "x \<le> 100"
  shows "\<bar>fround x - x\<bar> \<le> 1 / 2 ^ 47"
proof (cases "x = 0")
  case True
  then show ?thesis by (simp add: fround_0)
next
  case False
  have "quantum x \<le> 2 powi (7 - 53)" using False assms by (intro quantum_le) simp_all
  also have "(2::rat) powi (7 - 53) = 1 / 2 ^ 46" by (simp add: power_int_minus_divide)
  finally have "quantum x / 2 \<le> 1 / 2 ^ 47" by simp
  with fround_error [of x] show ?thesis by linarith
qed

lemma similarity_error:
  assumes "0 < max (length a) (length b)"
  shows "\<bar>similarity a b - (1 - of_nat (editDistance a b) / of_nat (max (length a) (length b)))\<bar>
    \<le> 1 / 2 ^ 53"
proof -
  define q :: rat where "q = of_nat (editDistance a b) / of_nat (max (length a) (length b))"
  have m: "(0::rat) < of_nat (max (length a) (length b))" using assms by (simp only: of_nat_0_less_iff)
  have "(of_nat (editDistance a b) :: rat) \<le> of_nat (max (length a) (length b))"
    using editDistance_le_max [of a b] of_nat_le_iff by blast
  then have q: "0 \<le> q" "q \<le> 1" using m by (simp_all add: q_def)
  have f: "0 \<le> fround q" "fround q \<le> 1" using q by (simp_all add: fround_nonneg fround_le_1)
  have e1: "\<bar>fround q - q\<bar> \<le> 1 / 2 ^ 54" using q by (rule fround_error_unit)
  have e2: "\<bar>fround (1 - fround q) - (1 - fround q)\<bar> \<le> 1 / 2 ^ 54"
    using f by (intro fround_error_unit) simp_all
  have ne: "max (length a) (length b) \<noteq> 0" using assms by arith
  have s: "similarity a b = fround (1 - fround q)"
    by (simp only: similarity_editDistance ne if_False fsub_def fdiv_def q_def)
  have "\<bar>fround (1 - fround q) - (1 - q)\<bar> \<le> 1 / 2 ^ 54 + 1 / 2 ^ 54"
    using e1 e2 by linarith
  then show ?thesis unfolding s q_def by simp
qed

lemma percent_error:
  assumes "c \<le> n" "0 < n"
  shows "\<bar>(of_int (Math_round (fmul (fdiv (of_nat c) (of_nat n)) 100)) :: rat)
      - 100 * of_nat c / of_nat n\<bar> \<le> 1 / 2 + 1 / 2 ^ 46"
proof -
  define q :: rat where "q = of_nat c / of_nat n"
  have "(of_nat c :: rat) \<le> of_nat n" using assms(1) by simp
  then have q: "0 \<le> q" "q \<le> 1" using assms(2) by (simp_all add: q_def)
  have f: "0 \<le> fround q" "fround q \<le> 1" using q by (simp_all add: fround_nonneg fround_le_1)
  define p where "p = fround (fround q * 100)"
  have e1: "\<bar>fround q - q\<bar> \<le> 1 / 2 ^ 54" using q by (rule fround_error_unit)
  have e2: "\<bar>p - fround q * 100\<bar> \<le> 1 / 2 ^ 47"
    unfolding p_def using f by (intro fround_error_100) simp_all
  have "\<bar>fround q * 100 - q * 100\<bar> = \<bar>fround q - q\<bar> * 100"
    using abs_mult [of "fround q - q" 100] by (simp add: left_diff_distrib)
  also have "\<dots> \<le> (1 / 2 ^ 54) * 100" using e1 by (intro mult_right_mono) simp_all
  also have "\<dots> \<le> 1 / 2 ^ 47" by simp
  finally have e3: "\<bar>fround q * 100 - q * 100\<bar> \<le> 1 / 2 ^ 47" .
  have "\<bar>p - q * 100\<bar> \<le> 1 / 2 ^ 47 + 1 / 2 ^ 47" using e2 e3 by linarith
  moreover have "(1 / 2 ^ 47 + 1 / 2 ^ 47 :: rat) = 1 / 2 ^ 46" by simp
  ultimately have e4: "\<bar>p - q * 100\<bar> \<le> 1 / 2 ^ 46" by (simp only:)
  have "of_int \<lfloor>p + 1 / 2\<rfloor> \<le> p + 1 / 2" "p + 1 / 2 < of_int \<lfloor>p + 1 / 2\<rfloor> + 1" by linarith+
  then have e5: "\<bar>of_int \<lfloor>p + 1 / 2\<rfloor> - p\<bar> \<le> 1 / 2" by linarith
  have eq: "fmul (fdiv (of_nat c) (of_nat n)) 100 = p"
    by (simp add: fmul_def fdiv_def q_def p_def)
  have fin: "\<bar>of_int \<lfloor>p + 1 / 2\<rfloor> - q * 100\<bar> \<le> 1 / 2 + 1 / 2 ^ 46" using e4 e5 by linarith
  have qq: "q * 100 = 100 * of_nat c / of_nat n" by (simp add: q_def)
  show ?thesis unfolding eq Math_round_def using fin unfolding qq .
qed

text \<open>
  Claim C7. \<open>similarity(a, b)\<close> is \<open>1 - editDistance(a, b) / max(len(a), len(b))\<close>, the
  quotient and the difference being the binary64 operations of the program, so that the
  result is within \<open>2^-53\<close> of the exact value of that expression; \<open>editDistance\<close> is
  the classic unit-cost edit distance, which \<open>levenshteinDistance\<close> computes and which
  is the length of the other string when one string is empty; \<open>similarity\<close> is 1 when
  both strings are empty, and its result lies in \<open>[0, 1]\<close>.
\<close>

theorem similarity_is_normalised_edit_distance:
  "similarity a b =
     (if max (length a) (length b) = 0 then 1
      else fsub 1 (fdiv (of_nat (editDistance a b)) (of_nat (max (length a) (length b)))))
   \<and> (0 < max (length a) (length b) \<longrightarrow>
        \<bar>similarity a b - (1 - of_nat (editDistance a b) / of_nat (max (length a) (length b)))\<bar>
          \<le> 1 / 2 ^ 53)
   \<and> levenshteinDistance a b = editDistance a b
   \<and> editDistance a [] = length a
   \<and> editDistance [] b = length b
   \<and> similarity [] [] = 1
   \<and> 0 \<le> similarity a b \<and> similarity a b \<le> 1"
proof -
  have "editDistance a [] = length a" "editDistance [] b = length b" "similarity [] [] = 1"
    by (simp_all add: editDistance_def similarity_editDistance)
  then show ?thesis
    using similarity_unit [of a b] similarity_error [of a b]
      similarity_editDistance [of a b] levenshteinDistance_editDistance [of a b]
    by blast
qed

theorem similarity_is_normalised_edit_distance_witness:
  "(0::nat) < max (length (ascii ''kitten'')) (length (ascii ''sitting''))
   \<and> editDistance (ascii ''kitten'') (ascii ''sitting'') = 3
   \<and> similarity (ascii ''kitten'') (ascii ''sitting'') = fround (1 - fround (3 / 7))
   \<and> \<bar>similarity (ascii ''kitten'') (ascii ''sitting'') - 4 / 7\<bar> \<le> 1 / 2 ^ 53"
proof -
  have m: "max (length (ascii ''kitten'')) (length (ascii ''sitting'')) = 7" by code_simp
  have h: "(0::nat) < max (length (ascii ''kitten'')) (length (ascii ''sitting''))"
    by (simp only: m)
  have d: "levenshteinDistance (ascii ''kitten'') (ascii ''sitting'') = 3" by code_simp
  note T = similarity_is_normalised_edit_distance [of "ascii ''kitten''" "ascii ''sitting''"]
  have e: "editDistance (ascii ''kitten'') (ascii ''sitting'') = 3"
    using T [THEN conjunct2, THEN conjunct2, THEN conjunct1] d by simp
  have s: "similarity (ascii ''kitten'') (ascii ''sitting'') = fround (1 - fround (3 / 7))"
    using T [THEN conjunct1] by (simp add: m e fsub_def fdiv_def)
  have "\<bar>similarity (ascii ''kitten'') (ascii ''sitting'')
      - (1 - of_nat (editDistance (ascii ''kitten'') (ascii ''sitting''))
             / of_nat (max (length (ascii ''kitten'')) (length (ascii ''sitting''))))\<bar>
      \<le> 1 / 2 ^ 53"
    using T [THEN conjunct2, THEN conjunct1, rule_format, OF h] .
  then have b: "\<bar>similarity (ascii ''kitten'') (ascii ''sitting'') - 4 / 7\<bar> \<le> 1 / 2 ^ 53"
    by (simp add: m e)
  from h e s b show ?thesis by (intro conjI)
qed

lemma positionBonus_le_1: "positionBonus i j \<le> 1"
proof -
  have "0 \<le> fround (of_int \<bar>int i - int j\<bar> * lit_0_02)"
    by (intro fround_nonneg mult_nonneg_nonneg) (simp_all add: lit_0_02_def fround_nonneg)
  then show ?thesis by (simp add: positionBonus_def fsub_def fmul_def fround_le_1)
qed

lemma adjustedSim_le_1: "adjustedSim ow sw i j \<le> 1"
proof -
  define s where "s = similarity (ow ! i) (sw ! j)"
  define p where "p = positionBonus i j"
  have s: "0 \<le> s" "s \<le> 1" using similarity_unit [of "ow ! i" "sw ! j"] by (simp_all add: s_def)
  have p: "p \<le> 1" unfolding p_def by (rule positionBonus_le_1)
  have "s * p \<le> s * 1" using s(1) p by (rule mult_left_mono [rotated])
  with s have "s * p \<le> 1" by simp
  then show ?thesis by (simp add: adjustedSim_def fmul_def s_def p_def fround_le_1)
qed

lemma lev_same: "lev a a i i = 0"
  by (induction i) simp_all

lemma similarity_same: "similarity w w = 1"
  by (simp add: similarity_editDistance editDistance_def lev_same fsub_def fdiv_def fround_0 fround_1)

lemma positionBonus_same: "positionBonus i i = 1"
  by (simp add: positionBonus_def fsub_def fmul_def fround_0 fround_1)

lemma adjustedSim_same: "ow ! i = sw ! i \<Longrightarrow> adjustedSim ow sw i i = 1"
  by (simp add: adjustedSim_def similarity_same positionBonus_same fmul_def fround_1)

lemma lit_0_9_le_1: "lit_0_9 \<le> 1"
  unfolding lit_0_9_def by (rule fround_le_1) simp

lemma lit_0_70_le_1: "lit_0_70 \<le> 1"
  unfolding lit_0_70_def by (rule fround_le_1) simp

lemma lit_0_5_eq: "lit_0_5 = 1 / 2"
  unfolding lit_0_5_def by code_simp

section \<open>Comparing a text with itself\<close>

lemma tokenize_nonempty: "w \<in> set (tokenize lc text) \<Longrightarrow> w \<noteq> []"
  by (simp add: tokenize_def)

lemma searchStart_le: "searchStart i \<le> i"
  by (simp add: searchStart_def)

lemma in_window_self: "i < length sw \<Longrightarrow> in_window sw i i"
  by (simp add: in_window_def searchStart_def searchEnd_def)

text \<open>The spoken word at the expected position is the reference word and no earlier index is free.\<close>

lemma find_best_same:
  assumes k: "k < length sw" and same: "sw ! k = ow ! k" and used: "used = int ` {0..<k}"
  shows "find_best used ow sw k = \<lparr>bestMatch = Some (sw ! k), bestSimilarity = 1, bestIndex = int k\<rparr>"
proof -
  define b where "b = window_scan used ow sw k"
  have w: "in_window sw k k" using k by (rule in_window_self)
  then have se: "searchStart k \<le> searchEnd sw k" by (simp add: in_window_def)
  have free: "int k \<notin> used" by (auto simp: used)
  have adj: "adjustedSim ow sw k k = 1" using same by (simp add: adjustedSim_same)
  from window_fold [OF se, of used ow sw k]
  have ub: "\<And>j. searchStart k \<le> j \<Longrightarrow> j < searchEnd sw k \<Longrightarrow> int j \<notin> used
        \<Longrightarrow> adjustedSim ow sw k j \<le> bestSimilarity b"
    and ch: "b = best0 \<or> (\<exists>j. searchStart k \<le> j \<and> j < searchEnd sw k \<and> int j \<notin> used
             \<and> b = \<lparr>bestMatch = Some (sw ! j), bestSimilarity = adjustedSim ow sw k j, bestIndex = int j\<rparr>
             \<and> 0 < adjustedSim ow sw k j
             \<and> (\<forall>j'. searchStart k \<le> j' \<and> j' < j \<and> int j' \<notin> used \<longrightarrow>
                    adjustedSim ow sw k j' < adjustedSim ow sw k j))"
    unfolding b_def window_scan_def by blast+
  have "1 \<le> bestSimilarity b" using ub [of k] w free adj by (simp add: in_window_def)
  then have "b \<noteq> best0" by (auto simp: best0_def)
  with ch obtain j where j: "searchStart k \<le> j" "j < searchEnd sw k" "int j \<notin> used"
    "b = \<lparr>bestMatch = Some (sw ! j), bestSimilarity = adjustedSim ow sw k j, bestIndex = int j\<rparr>"
    "\<And>j'. searchStart k \<le> j' \<Longrightarrow> j' < j \<Longrightarrow> int j' \<notin> used
        \<Longrightarrow> adjustedSim ow sw k j' < adjustedSim ow sw k j"
    by blast
  have "k \<le> j" using j(3) by (auto simp: used)
  have "j = k"
  proof (rule ccontr)
    assume "j \<noteq> k"
    with \<open>k \<le> j\<close> have "k < j" by simp
    then have "adjustedSim ow sw k k < adjustedSim ow sw k j"
      using j(5) [of k] w free by (simp add: in_window_def)
    with adj adjustedSim_le_1 [of ow sw k j] show False by simp
  qed
  with j(4) adj have b: "b = \<lparr>bestMatch = Some (sw ! k), bestSimilarity = 1, bestIndex = int k\<rparr>"
    by simp
  have "\<not> bestSimilarity b < lit_0_9" using lit_0_9_le_1 by (simp add: b)
  then show ?thesis unfolding find_best_def b_def [symmetric] Let_def using b by simp
qed

lemma find_best_all_used:
  assumes "\<forall>j < length sw. int j \<in> used"
  shows "find_best used ow sw k = best0"
  using find_best_ok [of used ow sw k] assms unfolding best_ok_def by blast

lemma prefix_loop:
  assumes sw: "sw = take c ow" and c: "c \<le> length ow" and ne: "\<forall>w \<in> set sw. w \<noteq> []"
    and thr: "ge_num 1 thr"
  shows "k \<le> length ow \<Longrightarrow>
     fst (compare_loop thr ow sw k) = int ` {0..<min k c}
     \<and> correctCount (snd (compare_loop thr ow sw k)) = min k c
     \<and> incorrectCount (snd (compare_loop thr ow sw k)) = 0
     \<and> missedCount (snd (compare_loop thr ow sw k)) = k - c"
proof (induction k)
  case 0
  show ?case by (simp add: compare_loop_def results0_def)
next
  case (Suc k)
  obtain used r where st: "compare_loop thr ow sw k = (used, r)"
    by (cases "compare_loop thr ow sw k")
  from Suc st have ih: "used = int ` {0..<min k c}" "correctCount r = min k c"
    "incorrectCount r = 0" "missedCount r = k - c" and k: "k < length ow"
    by simp_all
  have len: "length sw = c" using sw c by simp
  have step: "compare_loop thr ow sw (Suc k) = classify thr (ow ! k) (find_best used ow sw k) (used, r)"
    by (simp add: compare_loop_Suc st compare_step_def)
  show ?case
  proof (cases "k < c")
    case True
    then have used: "used = int ` {0..<k}" using ih(1) by simp
    have same: "sw ! k = ow ! k" using True sw by simp
    have kl: "k < length sw" using True len by simp
    have fb: "find_best used ow sw k
        = \<lparr>bestMatch = Some (sw ! k), bestSimilarity = 1, bestIndex = int k\<rparr>"
      by (rule find_best_same [OF kl same used])
    have "sw ! k \<noteq> []" using ne kl by simp
    then have "truthy (bestMatch (find_best used ow sw k))" by (simp add: fb truthy_def)
    moreover have "ge_num (bestSimilarity (find_best used ow sw k)) thr" using thr by (simp add: fb)
    ultimately have "classify thr (ow ! k) (find_best used ow sw k) (used, r)
        = (insert (int k) used,
           r\<lparr>wordResults := wordResults r @
                [\<lparr>original = ow ! k, spoken = sw ! k, status = Correct, score = 1\<rparr>],
              correctCount := correctCount r + 1\<rparr>)"
      by (simp add: classify_def fb)
    moreover have "insert (int k) (int ` {0..<k}) = int ` {0..<Suc k}"
      by (auto simp: less_Suc_eq)
    ultimately show ?thesis unfolding step using ih True by (simp add: used)
  next
    case False
    then have used: "used = int ` {0..<c}" using ih(1) by simp
    have "\<forall>j < length sw. int j \<in> used" by (simp add: used len)
    then have fb: "find_best used ow sw k = best0" by (rule find_best_all_used)
    have "classify thr (ow ! k) (find_best used ow sw k) (used, r)
        = (used,
           r\<lparr>wordResults := wordResults r @
                [\<lparr>original = ow ! k, spoken = [], status = Missed, score = 0\<rparr>],
              missedCount := missedCount r + 1\<rparr>)"
      by (simp add: classify_def fb best0_def truthy_def)
    then show ?thesis unfolding step using ih False by (simp add: used Suc_diff_le)
  qed
qed

lemma Math_round_100: "Math_round 100 = 100"
  by code_simp

lemma compare_accuracy_eq:
  "accuracy (compare lc originalText spokenText thr) =
     (if length (tokenize lc originalText) > 0
      then Math_round (fmul (fdiv (of_nat (correctCount (compare lc originalText spokenText thr)))
                                  (of_nat (length (tokenize lc originalText)))) 100)
      else 0)"
proof -
  define st where "st = compare_loop (threshold thr) (tokenize lc originalText)
      (tokenize lc spokenText) (length (tokenize lc originalText))"
  have inv: "loop_inv (threshold thr) (tokenize lc originalText) (tokenize lc spokenText)
      (length (tokenize lc originalText)) st"
    unfolding st_def by (rule loop_inv_loop)
  then have ow: "originalWords (snd st) = tokenize lc originalText" by (simp add: loop_inv_def)
  have acc: "accuracy (snd st) = 0" unfolding st_def by (rule loop_accuracy)
  have R: "compare lc originalText spokenText thr = finish st" by (simp add: compare_eq st_def)
  show ?thesis unfolding R finish_accuracy finish_fields ow acc by simp
qed

text \<open>
  Claim C2. For every text whose token sequence is not empty, comparing the text with
  itself under the default threshold counts every token correct, none incorrect and none
  missed, and gives the accuracy 100.
\<close>

theorem compare_identity:
  assumes "tokenize lc text \<noteq> []"
  shows "correctCount (compare lc text text None) = length (tokenize lc text)
    \<and> incorrectCount (compare lc text text None) = 0
    \<and> missedCount (compare lc text text None) = 0
    \<and> accuracy (compare lc text text None) = 100"
proof -
  define ow where "ow = tokenize lc text"
  have n: "0 < length ow" using assms by (simp add: ow_def)
  have ne: "\<forall>w \<in> set ow. w \<noteq> []" by (simp add: ow_def tokenize_nonempty)
  have thr: "ge_num 1 (threshold None)" by (simp add: threshold_def lit_0_70_le_1)
  have "fst (compare_loop (threshold None) ow ow (length ow)) = int ` {0..<min (length ow) (length ow)}
     \<and> correctCount (snd (compare_loop (threshold None) ow ow (length ow))) = min (length ow) (length ow)
     \<and> incorrectCount (snd (compare_loop (threshold None) ow ow (length ow))) = 0
     \<and> missedCount (snd (compare_loop (threshold None) ow ow (length ow))) = length ow - length ow"
    by (rule prefix_loop [OF _ _ ne thr]) simp_all
  then have cnt: "correctCount (compare lc text text None) = length ow"
    "incorrectCount (compare lc text text None) = 0"
    "missedCount (compare lc text text None) = 0"
    by (simp_all add: compare_eq finish_fields ow_def)
  have "fdiv (of_nat (length ow)) (of_nat (length ow)) = 1" using n by (simp add: fdiv_def fround_1)
  then have "accuracy (compare lc text text None) = 100"
    using n by (simp add: compare_accuracy_eq cnt ow_def [symmetric] fmul_def fround_100 Math_round_100)
  with cnt show ?thesis by (simp add: ow_def)
qed

theorem compare_identity_witness:
  "tokenize lower_ascii (ascii ''Kedi, kopek!'') \<noteq> []
   \<and> correctCount (compare lower_ascii (ascii ''Kedi, kopek!'') (ascii ''Kedi, kopek!'') None) = 2
   \<and> incorrectCount (compare lower_ascii (ascii ''Kedi, kopek!'') (ascii ''Kedi, kopek!'') None) = 0
   \<and> missedCount (compare lower_ascii (ascii ''Kedi, kopek!'') (ascii ''Kedi, kopek!'') None) = 0
   \<and> accuracy (compare lower_ascii (ascii ''Kedi, kopek!'') (ascii ''Kedi, kopek!'') None) = 100"
proof -
  have t: "tokenize lower_ascii (ascii ''Kedi, kopek!'') = [ascii ''kedi'', ascii ''kopek'']"
    by code_simp
  then have h: "tokenize lower_ascii (ascii ''Kedi, kopek!'') \<noteq> []" by simp
  show ?thesis using h compare_identity [OF h] by (simp add: t)
qed

section \<open>The accuracy\<close>

lemma compare_words:
  "originalWords (compare lc originalText spokenText thr) = tokenize lc originalText"
  "spokenWords (compare lc originalText spokenText thr) = tokenize lc spokenText"
  using loop_inv_loop [of "threshold thr" "tokenize lc originalText" "tokenize lc spokenText"
      "length (tokenize lc originalText)"]
  by (simp_all add: compare_eq finish_fields loop_inv_def)

lemma fround_le_100: "x \<le> 100 \<Longrightarrow> fround x \<le> 100"
proof (cases "0 \<le> x")
  case True
  assume "x \<le> 100"
  with True have "fround x \<le> fround 100" by (rule fround_mono)
  then show ?thesis by (simp add: fround_100)
next
  case False
  then have "fround x \<le> 0" by (intro fround_nonpos) simp
  then show ?thesis by simp
qed

lemma percent_range:
  assumes "c \<le> n" "0 < n"
  shows "0 \<le> Math_round (fmul (fdiv (of_nat c) (of_nat n)) 100)"
    and "Math_round (fmul (fdiv (of_nat c) (of_nat n)) 100) \<le> 100"
proof -
  define q :: rat where "q = of_nat c / of_nat n"
  have "(of_nat c :: rat) \<le> of_nat n" using assms(1) by simp
  then have q: "0 \<le> q" "q \<le> 1" using assms(2) by (simp_all add: q_def)
  have f: "0 \<le> fround q" "fround q \<le> 1" using q by (simp_all add: fround_nonneg fround_le_1)
  have p: "0 \<le> fround (fround q * 100)" "fround (fround q * 100) \<le> 100"
    using f by (simp_all add: fround_nonneg fround_le_100)
  have eq: "fmul (fdiv (of_nat c) (of_nat n)) 100 = fround (fround q * 100)"
    by (simp add: fmul_def fdiv_def q_def)
  show "0 \<le> Math_round (fmul (fdiv (of_nat c) (of_nat n)) 100)"
    unfolding eq Math_round_def using p(1) by (simp add: zero_le_floor)
  have "fround (fround q * 100) + 1 / 2 < 101" using p(2) by simp
  then have "\<lfloor>fround (fround q * 100) + 1 / 2\<rfloor> < 101" by (simp add: floor_less_iff)
  then show "Math_round (fmul (fdiv (of_nat c) (of_nat n)) 100) \<le> 100"
    unfolding eq Math_round_def by simp
qed

text \<open>
  Claim C8, as amended. The accuracy is 0 when the reference token sequence is empty;
  otherwise it is \<open>Math.round((correctCount / length) * 100)\<close> as the program computes it:
  the quotient is rounded to binary64 first, then its product with 100, and the result
  is rounded to the nearest integer, a tie going up. It is an integer between 0 and 100
  within \<open>1/2 + 2^-46\<close> of the exact percentage \<open>100 * correctCount / length\<close>.
\<close>

theorem compare_accuracy:
  "accuracy (compare lc originalText spokenText thr) =
     (if length (tokenize lc originalText) > 0
      then Math_round (fmul (fdiv (of_nat (correctCount (compare lc originalText spokenText thr)))
                                  (of_nat (length (tokenize lc originalText)))) 100)
      else 0)
   \<and> 0 \<le> accuracy (compare lc originalText spokenText thr)
   \<and> accuracy (compare lc originalText spokenText thr) \<le> 100
   \<and> (0 < length (tokenize lc originalText) \<longrightarrow>
        \<bar>(of_int (accuracy (compare lc originalText spokenText thr)) :: rat)
           - 100 * of_nat (correctCount (compare lc originalText spokenText thr))
               / of_nat (length (tokenize lc originalText))\<bar>
          \<le> 1 / 2 + 1 / 2 ^ 46)"
proof (cases "length (tokenize lc originalText) > 0")
  case False
  then show ?thesis by (simp add: compare_accuracy_eq)
next
  case True
  define st where "st = compare_loop (threshold thr) (tokenize lc originalText)
      (tokenize lc spokenText) (length (tokenize lc originalText))"
  have inv: "loop_inv (threshold thr) (tokenize lc originalText) (tokenize lc spokenText)
      (length (tokenize lc originalText)) st"
    unfolding st_def by (rule loop_inv_loop)
  have "correctCount (snd st) = count_status Correct (wordResults (snd st))"
    using inv by (simp add: loop_inv_def)
  then have "correctCount (snd st) \<le> length (wordResults (snd st))"
    by (simp add: count_status_def)
  then have le: "correctCount (compare lc originalText spokenText thr) \<le> length (tokenize lc originalText)"
    using inv by (simp add: compare_eq finish_fields st_def loop_inv_def)
  have acc: "accuracy (compare lc originalText spokenText thr)
      = Math_round (fmul (fdiv (of_nat (correctCount (compare lc originalText spokenText thr)))
                               (of_nat (length (tokenize lc originalText)))) 100)"
    using True by (simp add: compare_accuracy_eq)
  show ?thesis
    using percent_range [OF le True] percent_error [OF le True] True unfolding acc [symmetric]
    by (simp add: acc [symmetric])
qed

theorem compare_accuracy_witness:
  "(0::nat) < length (tokenize lower_ascii (ascii ''a b''))
   \<and> correctCount (compare lower_ascii (ascii ''a b'') (ascii ''a'') None) = 1
   \<and> accuracy (compare lower_ascii (ascii ''a b'') (ascii ''a'') None) = 50
   \<and> \<bar>(of_int (accuracy (compare lower_ascii (ascii ''a b'') (ascii ''a'') None)) :: rat)
        - 100 * 1 / 2\<bar> \<le> 1 / 2 + 1 / 2 ^ 46"
proof -
  have n: "length (tokenize lower_ascii (ascii ''a b'')) = 2" by code_simp
  have h: "(0::nat) < length (tokenize lower_ascii (ascii ''a b''))" by (simp only: n)
  have c: "correctCount (compare lower_ascii (ascii ''a b'') (ascii ''a'') None) = 1" by code_simp
  have r: "Math_round (fmul (fdiv 1 2) 100) = 50" by code_simp
  note T = compare_accuracy [of lower_ascii "ascii ''a b''" "ascii ''a''" None]
  have a: "accuracy (compare lower_ascii (ascii ''a b'') (ascii ''a'') None) = 50"
    using T [THEN conjunct1] by (simp add: n c r)
  have "\<bar>(of_int (accuracy (compare lower_ascii (ascii ''a b'') (ascii ''a'') None)) :: rat)
        - 100 * of_nat (correctCount (compare lower_ascii (ascii ''a b'') (ascii ''a'') None))
            / of_nat (length (tokenize lower_ascii (ascii ''a b'')))\<bar> \<le> 1 / 2 + 1 / 2 ^ 46"
    using T [THEN conjunct2, THEN conjunct2, THEN conjunct2, rule_format, OF h] .
  then have b: "\<bar>(of_int (accuracy (compare lower_ascii (ascii ''a b'') (ascii ''a'') None)) :: rat)
        - 100 * 1 / 2\<bar> \<le> 1 / 2 + 1 / 2 ^ 46"
    by (simp add: n c)
  from h c a b show ?thesis by (intro conjI)
qed

text \<open>
  The claim as stated fails: of the 40 words of the passage 23 are read, and the
  accuracy is 57, where \<open>round(100 * 23 / 40)\<close> is 58, in exact arithmetic and in binary64
  alike: \<open>23 / 40\<close> rounds to a value just below 0.575.
\<close>

theorem compare_accuracy_counterexample:
  "length (originalWords (compare lower_ascii passage40 spoken23 None)) = 40
   \<and> correctCount (compare lower_ascii passage40 spoken23 None) = 23
   \<and> accuracy (compare lower_ascii passage40 spoken23 None) = 57
   \<and> round (100 * 23 / 40 :: rat) = 58
   \<and> Math_round (fdiv (fmul 100 23) 40) = 58"
proof -
  have ow: "tokenize lower_ascii passage40 = replicate 23 [0x61] @ replicate 17 [0x62]"
    unfolding passage40_def by code_simp
  have sw: "tokenize lower_ascii spoken23 = replicate 23 [0x61]"
    unfolding spoken23_def by code_simp
  have tk: "tokenize lower_ascii spoken23 = take 23 (tokenize lower_ascii passage40)"
    by (simp add: ow sw)
  have ne: "\<forall>w \<in> set (tokenize lower_ascii spoken23). w \<noteq> []" by (simp add: tokenize_nonempty)
  have thr: "ge_num 1 (threshold None)" by (simp add: threshold_def lit_0_70_le_1)
  have len: "length (tokenize lower_ascii passage40) = 40" by (simp add: ow)
  have "correctCount (snd (compare_loop (threshold None) (tokenize lower_ascii passage40)
          (tokenize lower_ascii spoken23) 40)) = min 40 23"
    using prefix_loop [OF tk _ ne thr, of 40] by (simp add: len)
  then have c: "correctCount (compare lower_ascii passage40 spoken23 None) = 23"
    by (simp add: compare_eq finish_fields len)
  have l: "length (originalWords (compare lower_ascii passage40 spoken23 None)) = 40"
    by (simp add: compare_words len)
  have m: "Math_round (fmul (fdiv 23 40) 100) = 57" by code_simp
  have a: "accuracy (compare lower_ascii passage40 spoken23 None) = 57"
    by (simp add: compare_accuracy_eq len c m)
  have r: "round (100 * 23 / 40 :: rat) = 58" by code_simp
  have f: "Math_round (fdiv (fmul 100 23) 40) = 58" by code_simp
  from l c a r f show ?thesis by simp
qed

section \<open>Consumed spoken indices\<close>

lemma card_int_image: "card (int ` {0..<n}) = n"
  by (simp add: card_image)

lemma used_bound:
  assumes "finite used" "used \<subseteq> int ` {0..<n}"
  shows "card used \<le> n"
  using card_mono [of "int ` {0..<n}" used] assms by (simp add: card_int_image)

lemma step_consumed:
  "fst (compare_step thr ow sw k st) = fst st
   \<or> (\<exists>j < length sw. int j \<notin> fst st \<and> fst (compare_step thr ow sw k st) = insert (int j) (fst st))"
proof -
  obtain used r where st: "st = (used, r)" by (cases st)
  define b where "b = find_best used ow sw k"
  have ok: "best_ok used ow sw k b" unfolding b_def by (rule find_best_ok)
  have step: "compare_step thr ow sw k (used, r) = classify thr (ow ! k) b (used, r)"
    by (simp add: compare_step_def b_def)
  show ?thesis
  proof (cases rule: classify_cases [of b thr "ow ! k" used r])
    case correct
    from truthy_best_ok [OF ok correct(1)]
    obtain j where "j < length sw" "int j \<notin> used" "bestIndex b = int j" by blast
    then show ?thesis unfolding st step correct(3) by auto
  next
    case incorrect
    from truthy_best_ok [OF ok incorrect(1)]
    obtain j where "j < length sw" "int j \<notin> used" "bestIndex b = int j" by blast
    then show ?thesis unfolding st step incorrect(4) by auto
  next
    case missed
    then show ?thesis unfolding st step by simp
  qed
qed

text \<open>
  Claim C9. Every spoken index that an iteration consumes was not consumed before, so
  the consumed indices are pairwise distinct: their number is
  \<open>correctCount + incorrectCount\<close>, which is at most the number of spoken tokens, and
  \<open>extraCount\<close> is exactly the number of spoken tokens minus
  \<open>correctCount + incorrectCount\<close>; the clamp \<open>max(0, ...)\<close> never changes the value.
\<close>

theorem compare_consumed_distinct:
  "(\<forall>k < length (tokenize lc originalText).
      consumed (threshold thr) (tokenize lc originalText) (tokenize lc spokenText) (Suc k)
        = consumed (threshold thr) (tokenize lc originalText) (tokenize lc spokenText) k
      \<or> (\<exists>j < length (tokenize lc spokenText).
            int j \<notin> consumed (threshold thr) (tokenize lc originalText) (tokenize lc spokenText) k
            \<and> consumed (threshold thr) (tokenize lc originalText) (tokenize lc spokenText) (Suc k)
                = insert (int j)
                    (consumed (threshold thr) (tokenize lc originalText) (tokenize lc spokenText) k)))
   \<and> card (consumed (threshold thr) (tokenize lc originalText) (tokenize lc spokenText)
              (length (tokenize lc originalText)))
       = correctCount (compare lc originalText spokenText thr)
         + incorrectCount (compare lc originalText spokenText thr)
   \<and> correctCount (compare lc originalText spokenText thr)
         + incorrectCount (compare lc originalText spokenText thr)
       \<le> length (tokenize lc spokenText)
   \<and> extraCount (compare lc originalText spokenText thr)
       = int (length (tokenize lc spokenText))
         - int (correctCount (compare lc originalText spokenText thr)
                + incorrectCount (compare lc originalText spokenText thr))
   \<and> int (length (spokenWords (compare lc originalText spokenText thr)))
         - int (card (consumed (threshold thr) (tokenize lc originalText) (tokenize lc spokenText)
                        (length (tokenize lc originalText))))
       = extraCount (compare lc originalText spokenText thr)"
proof -
  define ow where "ow = tokenize lc originalText"
  define sw where "sw = tokenize lc spokenText"
  define t where "t = threshold thr"
  define st where "st = compare_loop t ow sw (length ow)"
  have inv: "loop_inv t ow sw (length ow) st" unfolding st_def by (rule loop_inv_loop)
  have R: "compare lc originalText spokenText thr = finish st"
    by (simp add: compare_eq st_def ow_def sw_def t_def)
  have fin: "finite (fst st)" and sub: "fst st \<subseteq> int ` {0..<length sw}"
    and card: "card (fst st) = correctCount (snd st) + incorrectCount (snd st)"
    and spk: "spokenWords (snd st) = sw"
    using inv by (simp_all add: loop_inv_def)
  have le: "card (fst st) \<le> length sw" using fin sub by (rule used_bound)
  have c: "consumed t ow sw (length ow) = fst st" by (simp add: consumed_def st_def)
  have fresh: "\<forall>k < length ow.
      consumed t ow sw (Suc k) = consumed t ow sw k
      \<or> (\<exists>j < length sw. int j \<notin> consumed t ow sw k
            \<and> consumed t ow sw (Suc k) = insert (int j) (consumed t ow sw k))"
    using step_consumed [of t ow sw] by (simp add: consumed_def compare_loop_Suc)
  have ex: "extraCount (finish st) = int (length sw) - int (card (fst st))"
    using le by (simp add: finish_fields spk)
  show ?thesis
    unfolding ow_def [symmetric] sw_def [symmetric] t_def [symmetric] R finish_fields c
    using fresh card le ex spk by (simp add: finish_fields)
qed

theorem compare_consumed_distinct_witness:
  "consumed (threshold None) (tokenize lower_ascii (ascii ''kedi''))
       (tokenize lower_ascii (ascii ''kedi fazladan kelime'')) 1 = {0}
   \<and> correctCount (compare lower_ascii (ascii ''kedi'') (ascii ''kedi fazladan kelime'') None)
       + incorrectCount (compare lower_ascii (ascii ''kedi'') (ascii ''kedi fazladan kelime'') None) = 1
   \<and> extraCount (compare lower_ascii (ascii ''kedi'') (ascii ''kedi fazladan kelime'') None) = 2"
proof -
  note T = compare_consumed_distinct
    [of lower_ascii "ascii ''kedi''" None "ascii ''kedi fazladan kelime''"]
  have ow: "length (tokenize lower_ascii (ascii ''kedi'')) = 1" by code_simp
  have sw: "length (tokenize lower_ascii (ascii ''kedi fazladan kelime'')) = 3" by code_simp
  have c: "consumed (threshold None) (tokenize lower_ascii (ascii ''kedi''))
       (tokenize lower_ascii (ascii ''kedi fazladan kelime'')) 1 = {0}" by code_simp
  have n: "correctCount (compare lower_ascii (ascii ''kedi'') (ascii ''kedi fazladan kelime'') None)
       + incorrectCount (compare lower_ascii (ascii ''kedi'') (ascii ''kedi fazladan kelime'') None) = 1"
    using T [THEN conjunct2, THEN conjunct1] unfolding ow c by simp
  have e: "extraCount (compare lower_ascii (ascii ''kedi'') (ascii ''kedi fazladan kelime'') None) = 2"
    using T [THEN conjunct2, THEN conjunct2, THEN conjunct2, THEN conjunct1] unfolding n sw by simp
  from c n e show ?thesis by (intro conjI)
qed

section \<open>The empty reference and the thresholds\<close>

lemma lower_ascii_Nil: "lower_ascii [] = []"
  by (simp add: lower_ascii_def)

lemma tokenize_empty_text: "lc [] = [] \<Longrightarrow> tokenize lc [] = []"
  by (simp add: tokenize_def normalize_def trim_def)

text \<open>
  Claim C3, as amended. For every spoken text, \<open>compare\<close> applied to a reference text
  with no token (the empty text among them) yields no word result, the accuracy 0 and
  the counts \<open>correctCount\<close>, \<open>incorrectCount\<close> and \<open>missedCount\<close> 0; \<open>extraCount\<close> is the
  number of spoken tokens, none of which is consumed.
\<close>

theorem compare_empty_reference:
  assumes "tokenize lc originalText = []"
  shows "wordResults (compare lc originalText spokenText thr) = []
    \<and> accuracy (compare lc originalText spokenText thr) = 0
    \<and> correctCount (compare lc originalText spokenText thr) = 0
    \<and> incorrectCount (compare lc originalText spokenText thr) = 0
    \<and> missedCount (compare lc originalText spokenText thr) = 0
    \<and> extraCount (compare lc originalText spokenText thr) = int (length (tokenize lc spokenText))"
  using assms
  by (simp add: compare_eq compare_loop_def finish_def results0_def)

theorem compare_empty_reference_witness:
  "tokenize lower_ascii [] = []
   \<and> wordResults (compare lower_ascii [] (ascii ''herhangi bir sey'') None) = []
   \<and> accuracy (compare lower_ascii [] (ascii ''herhangi bir sey'') None) = 0
   \<and> correctCount (compare lower_ascii [] (ascii ''herhangi bir sey'') None) = 0
   \<and> extraCount (compare lower_ascii [] (ascii ''herhangi bir sey'') None) = 3"
proof -
  have h: "tokenize lower_ascii [] = []" by (simp add: tokenize_empty_text lower_ascii_Nil)
  have sw: "length (tokenize lower_ascii (ascii ''herhangi bir sey'')) = 3" by code_simp
  show ?thesis
    using h compare_empty_reference [OF h, of "ascii ''herhangi bir sey''" None] by (simp add: sw)
qed

text \<open>
  The claim as stated fails: with the empty reference text and the spoken text
  \<open>herhangi bir sey\<close>, \<open>extraCount\<close> is 3, not 0.
\<close>

theorem compare_empty_reference_counterexample:
  "extraCount (compare lower_ascii [] (ascii ''herhangi bir sey'') None) = 3
   \<and> extraCount (compare lower_ascii [] (ascii ''herhangi bir sey'') None) \<noteq> 0"
proof -
  have h: "tokenize lower_ascii [] = []" by (simp add: tokenize_empty_text lower_ascii_Nil)
  have sw: "length (tokenize lower_ascii (ascii ''herhangi bir sey'')) = 3" by code_simp
  show ?thesis using h by (simp add: compare_eq compare_loop_def finish_def results0_def sw)
qed




section \<open>The windowed search\<close>

lemma candidate_iff:
  "candidate used sw i j \<longleftrightarrow>
     max 0 (int i - 5) \<le> int j \<and> int j < min (int (length sw)) (int i + 10) \<and> int j \<notin> used"
  by (auto simp: candidate_def in_window_def searchStart_def searchEnd_def)

lemma window_scan_empty: "\<not> searchStart i \<le> searchEnd sw i \<Longrightarrow> window_scan used ow sw i = best0"
  by (simp add: window_scan_def)

text \<open>
  Claim C5, as amended. The reference tokens are processed in order, iteration \<open>i\<close>
  working on the state that the iterations before it have left. Its first scan considers
  exactly the spoken indices \<open>j\<close> with \<open>max(0, i-5) \<le> j < min(len(spoken), i+10)\<close> that
  are not consumed and scores each as
  \<open>similarity(reference[i], spoken[j]) * (1 - |i-j| * 0.02)\<close>. When some candidate has a
  positive score, it keeps the first candidate that reaches the highest score, and no
  candidate scores above the kept score. When no candidate has a positive score nothing
  is kept: \<open>bestMatch\<close> stays \<open>null\<close> and the best score stays 0.
\<close>

theorem window_scan_best:
  "(\<forall>j. candidate used sw i j \<longrightarrow>
        adjustedSim ow sw i j \<le> bestSimilarity (window_scan used ow sw i))
   \<and> (window_scan used ow sw i = best0
      \<or> (\<exists>j. candidate used sw i j
             \<and> window_scan used ow sw i
                 = \<lparr>bestMatch = Some (sw ! j), bestSimilarity = adjustedSim ow sw i j, bestIndex = int j\<rparr>
             \<and> 0 < adjustedSim ow sw i j
             \<and> (\<forall>j'. candidate used sw i j' \<and> j' < j \<longrightarrow>
                    adjustedSim ow sw i j' < adjustedSim ow sw i j)))
   \<and> (candidate used sw i j \<longleftrightarrow>
        max 0 (int i - 5) \<le> int j \<and> int j < min (int (length sw)) (int i + 10) \<and> int j \<notin> used)
   \<and> adjustedSim ow sw i j
        = fmul (similarity (ow ! i) (sw ! j)) (fsub 1 (fmul (of_int \<bar>int i - int j\<bar>) lit_0_02))
   \<and> compare_loop thr ow sw (Suc i) = compare_step thr ow sw i (compare_loop thr ow sw i)
   \<and> compare_step thr ow sw i (used, r)
        = classify thr (ow ! i)
            (if bestSimilarity (window_scan used ow sw i) < lit_0_9
             then exact_scan used ow sw i [0..<length sw] (window_scan used ow sw i)
             else window_scan used ow sw i)
            (used, r)"
proof (intro conjI)
  show "\<forall>j. candidate used sw i j \<longrightarrow>
        adjustedSim ow sw i j \<le> bestSimilarity (window_scan used ow sw i)"
  proof (cases "searchStart i \<le> searchEnd sw i")
    case True
    from window_fold [OF True, of used ow sw i] show ?thesis
      unfolding window_scan_def candidate_def in_window_def by blast
  next
    case False
    then show ?thesis by (auto simp: candidate_def in_window_def)
  qed
next
  show "window_scan used ow sw i = best0
      \<or> (\<exists>j. candidate used sw i j
             \<and> window_scan used ow sw i
                 = \<lparr>bestMatch = Some (sw ! j), bestSimilarity = adjustedSim ow sw i j, bestIndex = int j\<rparr>
             \<and> 0 < adjustedSim ow sw i j
             \<and> (\<forall>j'. candidate used sw i j' \<and> j' < j \<longrightarrow>
                    adjustedSim ow sw i j' < adjustedSim ow sw i j))"
  proof (cases "searchStart i \<le> searchEnd sw i")
    case True
    from window_fold [OF True, of used ow sw i]
    have "window_scan used ow sw i = best0
      \<or> (\<exists>j. searchStart i \<le> j \<and> j < searchEnd sw i \<and> int j \<notin> used
             \<and> window_scan used ow sw i
                 = \<lparr>bestMatch = Some (sw ! j), bestSimilarity = adjustedSim ow sw i j, bestIndex = int j\<rparr>
             \<and> 0 < adjustedSim ow sw i j
             \<and> (\<forall>j'. searchStart i \<le> j' \<and> j' < j \<and> int j' \<notin> used \<longrightarrow>
                    adjustedSim ow sw i j' < adjustedSim ow sw i j))"
      unfolding window_scan_def by blast
    then show ?thesis
    proof
      assume "window_scan used ow sw i = best0"
      then show ?thesis by simp
    next
      assume "\<exists>j. searchStart i \<le> j \<and> j < searchEnd sw i \<and> int j \<notin> used
             \<and> window_scan used ow sw i
                 = \<lparr>bestMatch = Some (sw ! j), bestSimilarity = adjustedSim ow sw i j, bestIndex = int j\<rparr>
             \<and> 0 < adjustedSim ow sw i j
             \<and> (\<forall>j'. searchStart i \<le> j' \<and> j' < j \<and> int j' \<notin> used \<longrightarrow>
                    adjustedSim ow sw i j' < adjustedSim ow sw i j)"
      then obtain j where j: "searchStart i \<le> j" "j < searchEnd sw i" "int j \<notin> used"
        "window_scan used ow sw i
           = \<lparr>bestMatch = Some (sw ! j), bestSimilarity = adjustedSim ow sw i j, bestIndex = int j\<rparr>"
        "0 < adjustedSim ow sw i j"
        "\<forall>j'. searchStart i \<le> j' \<and> j' < j \<and> int j' \<notin> used \<longrightarrow>
                    adjustedSim ow sw i j' < adjustedSim ow sw i j"
        by blast
      have c: "candidate used sw i j" using j(1,2,3) by (simp add: candidate_def in_window_def)
      have f: "\<forall>j'. candidate used sw i j' \<and> j' < j \<longrightarrow>
                    adjustedSim ow sw i j' < adjustedSim ow sw i j"
        using j(6) by (simp add: candidate_def in_window_def)
      from c j(4,5) f show ?thesis by blast
    qed
  next
    case False
    then show ?thesis by (simp add: window_scan_empty)
  qed
next
  show "candidate used sw i j \<longleftrightarrow>
        max 0 (int i - 5) \<le> int j \<and> int j < min (int (length sw)) (int i + 10) \<and> int j \<notin> used"
    by (rule candidate_iff)
next
  show "adjustedSim ow sw i j
        = fmul (similarity (ow ! i) (sw ! j)) (fsub 1 (fmul (of_int \<bar>int i - int j\<bar>) lit_0_02))"
    by (simp add: adjustedSim_def positionBonus_def)
next
  show "compare_loop thr ow sw (Suc i) = compare_step thr ow sw i (compare_loop thr ow sw i)"
    by (rule compare_loop_Suc)
next
  show "compare_step thr ow sw i (used, r)
        = classify thr (ow ! i)
            (if bestSimilarity (window_scan used ow sw i) < lit_0_9
             then exact_scan used ow sw i [0..<length sw] (window_scan used ow sw i)
             else window_scan used ow sw i)
            (used, r)"
    by (simp add: compare_step_def find_best_def Let_def)
qed

theorem window_scan_best_witness:
  "candidate {} [ascii ''b'', ascii ''a''] 0 1
   \<and> adjustedSim [ascii ''a''] [ascii ''b'', ascii ''a''] 0 1
       \<le> bestSimilarity (window_scan {} [ascii ''a''] [ascii ''b'', ascii ''a''] 0)
   \<and> window_scan {} [ascii ''a''] [ascii ''b'', ascii ''a''] 0
       = \<lparr>bestMatch = Some (ascii ''a''), bestSimilarity = fround (1 - fround (2 / 100)),
          bestIndex = 1\<rparr>"
proof -
  have c: "candidate {} [ascii ''b'', ascii ''a''] 0 1" by code_simp
  have w: "window_scan {} [ascii ''a''] [ascii ''b'', ascii ''a''] 0
       = \<lparr>bestMatch = Some (ascii ''a''), bestSimilarity = fround (1 - fround (2 / 100)),
          bestIndex = 1\<rparr>" by code_simp
  note T = window_scan_best [of "{}" "[ascii ''b'', ascii ''a'']" 0 "[ascii ''a'']",
      THEN conjunct1, rule_format, OF c]
  from c T w show ?thesis by (intro conjI)
qed

text \<open>
  The claim as stated fails when the highest score is 0: for the reference word \<open>abc\<close>
  and the spoken word \<open>xyz\<close> the index 0 is a candidate, its score 0 is the highest, and
  the scan keeps nothing; with the threshold 0 the word is classified missed, where a
  kept candidate of score 0 would be correct.
\<close>

theorem window_scan_best_counterexample:
  "candidate {} [ascii ''xyz''] 0 0
   \<and> adjustedSim [ascii ''abc''] [ascii ''xyz''] 0 0 = 0
   \<and> bestMatch (window_scan {} [ascii ''abc''] [ascii ''xyz''] 0) = None
   \<and> bestIndex (window_scan {} [ascii ''abc''] [ascii ''xyz''] 0) = - 1
   \<and> map status (wordResults (compare lower_ascii (ascii ''abc'') (ascii ''xyz'') (Some (Num 0))))
       = [Missed]"
  by code_simp

section \<open>The fallback scan\<close>

lemma exact_scan_least:
  assumes j: "j < length sw" and hit: "exact_hit used ow sw i j"
  shows "\<exists>j0 \<le> j. exact_hit used ow sw i j0 \<and> (\<forall>j' < j0. \<not> exact_hit used ow sw i j')
     \<and> exact_scan used ow sw i [0..<length sw] b
         = \<lparr>bestMatch = Some (sw ! j0), bestSimilarity = 1, bestIndex = int j0\<rparr>"
proof -
  define j0 where "j0 = (LEAST j. exact_hit used ow sw i j)"
  have h0: "exact_hit used ow sw i j0" unfolding j0_def using hit by (rule LeastI)
  have le: "j0 \<le> j" unfolding j0_def using hit by (rule Least_le)
  have first: "\<forall>j' < j0. \<not> exact_hit used ow sw i j'"
    unfolding j0_def using not_less_Least by blast
  have lt: "j0 < length sw" using le j by simp
  have split: "[0..<length sw] = [0..<j0] @ j0 # [Suc j0..<length sw]"
    using lt by (metis le0 upt_add_eq_append upt_conv_Cons le_add_diff_inverse less_imp_le_nat)
  have "exact_scan used ow sw i ([0..<j0] @ j0 # [Suc j0..<length sw]) b
      = \<lparr>bestMatch = Some (sw ! j0), bestSimilarity = 1, bestIndex = int j0\<rparr>"
    using first h0 by (intro exact_scan_first) simp_all
  with split h0 le first show ?thesis by auto
qed

text \<open>
  Claim C6. Whenever the best score of the windowed scan of an iteration is strictly
  below 0.9 and some unconsumed spoken index outside the window holds a token equal to
  the reference token, the first such index replaces the windowed candidate with the
  score exactly 1; for every \<open>correctThreshold\<close> up to 1 (one for which \<open>1 >= correctThreshold\<close>
  holds) the word is then classified correct, with that index consumed.
\<close>

theorem fallback_exact_match:
  assumes i: "i < length (tokenize lc originalText)"
    and low: "bestSimilarity (window_scan used (tokenize lc originalText) (tokenize lc spokenText) i) < lit_0_9"
    and j: "j < length (tokenize lc spokenText)"
    and free: "int j \<notin> used"
    and out: "\<not> (searchStart i \<le> j \<and> j < searchEnd (tokenize lc spokenText) i)"
    and eq: "tokenize lc spokenText ! j = tokenize lc originalText ! i"
    and thr: "ge_num 1 thr"
  shows "\<exists>j0 \<le> j.
     int j0 \<notin> used
     \<and> \<not> (searchStart i \<le> j0 \<and> j0 < searchEnd (tokenize lc spokenText) i)
     \<and> tokenize lc spokenText ! j0 = tokenize lc originalText ! i
     \<and> find_best used (tokenize lc originalText) (tokenize lc spokenText) i
         = \<lparr>bestMatch = Some (tokenize lc originalText ! i), bestSimilarity = 1, bestIndex = int j0\<rparr>
     \<and> compare_step thr (tokenize lc originalText) (tokenize lc spokenText) i (used, r)
         = (insert (int j0) used,
            r\<lparr>wordResults := wordResults r @
                 [\<lparr>original = tokenize lc originalText ! i, spoken = tokenize lc originalText ! i,
                   status = Correct, score = 1\<rparr>],
               correctCount := correctCount r + 1\<rparr>)"
proof -
  define ow where "ow = tokenize lc originalText"
  define sw where "sw = tokenize lc spokenText"
  have hit: "exact_hit used ow sw i j"
    using free out eq by (simp add: exact_hit_def in_window_def ow_def sw_def)
  have jl: "j < length sw" using j by (simp add: sw_def)
  from exact_scan_least [OF jl hit, of "window_scan used ow sw i"]
  obtain j0 where j0: "j0 \<le> j" "exact_hit used ow sw i j0"
    "exact_scan used ow sw i [0..<length sw] (window_scan used ow sw i)
       = \<lparr>bestMatch = Some (sw ! j0), bestSimilarity = 1, bestIndex = int j0\<rparr>"
    by blast
  have same: "sw ! j0 = ow ! i" using j0(2) by (simp add: exact_hit_def)
  have fb: "find_best used ow sw i
      = \<lparr>bestMatch = Some (ow ! i), bestSimilarity = 1, bestIndex = int j0\<rparr>"
  proof -
    have "bestSimilarity (window_scan used ow sw i) < lit_0_9" using low by (simp add: ow_def sw_def)
    then have "find_best used ow sw i
        = exact_scan used ow sw i [0..<length sw] (window_scan used ow sw i)"
      by (simp add: find_best_def Let_def)
    then show ?thesis by (simp add: j0(3) same)
  qed
  have "ow ! i \<in> set ow" using i by (simp add: ow_def)
  then have ne: "ow ! i \<noteq> []" unfolding ow_def by (rule tokenize_nonempty)
  have step: "compare_step thr ow sw i (used, r)
      = (insert (int j0) used,
         r\<lparr>wordResults := wordResults r @
              [\<lparr>original = ow ! i, spoken = ow ! i, status = Correct, score = 1\<rparr>],
            correctCount := correctCount r + 1\<rparr>)"
    using ne thr by (simp add: compare_step_def fb classify_def truthy_def)
  from j0(1,2) fb step show ?thesis
    unfolding ow_def [symmetric] sw_def [symmetric] exact_hit_def in_window_def by blast
qed

theorem fallback_exact_match_witness:
  "(0::nat) < length (tokenize lower_ascii (ascii ''z''))
   \<and> bestSimilarity (window_scan {} (tokenize lower_ascii (ascii ''z''))
         (tokenize lower_ascii far_text) 0) < lit_0_9
   \<and> (10::nat) < length (tokenize lower_ascii far_text)
   \<and> \<not> (searchStart 0 \<le> 10 \<and> 10 < searchEnd (tokenize lower_ascii far_text) 0)
   \<and> tokenize lower_ascii far_text ! 10 = tokenize lower_ascii (ascii ''z'') ! 0
   \<and> find_best {} (tokenize lower_ascii (ascii ''z'')) (tokenize lower_ascii far_text) 0
       = \<lparr>bestMatch = Some (ascii ''z''), bestSimilarity = 1, bestIndex = 10\<rparr>
   \<and> map status (wordResults (compare lower_ascii (ascii ''z'') far_text None)) = [Correct]"
proof -
  have ow: "tokenize lower_ascii (ascii ''z'') = [ascii ''z'']" by code_simp
  have sw: "tokenize lower_ascii far_text = replicate 10 (ascii ''a'') @ [ascii ''z'']"
    unfolding far_text_def by code_simp
  have i: "(0::nat) < length (tokenize lower_ascii (ascii ''z''))" by (simp add: ow)
  have low: "bestSimilarity (window_scan {} (tokenize lower_ascii (ascii ''z''))
         (tokenize lower_ascii far_text) 0) < lit_0_9"
    unfolding ow sw by code_simp
  have j: "(10::nat) < length (tokenize lower_ascii far_text)" by (simp add: sw)
  have free: "int 10 \<notin> {}" by simp
  have out: "\<not> (searchStart 0 \<le> 10 \<and> 10 < searchEnd (tokenize lower_ascii far_text) 0)"
    by (simp add: searchEnd_def sw)
  have eq: "tokenize lower_ascii far_text ! 10 = tokenize lower_ascii (ascii ''z'') ! 0"
    by (simp add: ow sw nth_append)
  have thr: "ge_num 1 (Num lit_0_70)" by (simp add: lit_0_70_le_1)
  from fallback_exact_match [OF i low j free out eq thr, of "results0 [ascii ''z''] (tokenize lower_ascii far_text)"]
  obtain j0 where j0: "j0 \<le> 10" "\<not> (searchStart 0 \<le> j0 \<and> j0 < searchEnd (tokenize lower_ascii far_text) 0)"
    "find_best {} (tokenize lower_ascii (ascii ''z'')) (tokenize lower_ascii far_text) 0
       = \<lparr>bestMatch = Some (tokenize lower_ascii (ascii ''z'') ! 0), bestSimilarity = 1, bestIndex = int j0\<rparr>"
    "compare_step (Num lit_0_70) (tokenize lower_ascii (ascii ''z'')) (tokenize lower_ascii far_text) 0
         ({}, results0 [ascii ''z''] (tokenize lower_ascii far_text))
       = (insert (int j0) {},
          (results0 [ascii ''z''] (tokenize lower_ascii far_text))
            \<lparr>wordResults := wordResults (results0 [ascii ''z''] (tokenize lower_ascii far_text)) @
                 [\<lparr>original = tokenize lower_ascii (ascii ''z'') ! 0,
                   spoken = tokenize lower_ascii (ascii ''z'') ! 0,
                   status = Correct, score = 1\<rparr>],
               correctCount := correctCount (results0 [ascii ''z''] (tokenize lower_ascii far_text)) + 1\<rparr>)"
    by blast
  have "j0 = 10" using j0(1,2) by (simp add: searchEnd_def searchStart_def sw)
  with j0(3) have fb: "find_best {} (tokenize lower_ascii (ascii ''z'')) (tokenize lower_ascii far_text) 0
       = \<lparr>bestMatch = Some (ascii ''z''), bestSimilarity = 1, bestIndex = 10\<rparr>"
    by (simp add: ow)
  have st: "map status (wordResults (compare lower_ascii (ascii ''z'') far_text None)) = [Correct]"
    using j0(4) by (simp add: compare_eq threshold_def ow compare_loop_def finish_fields results0_def)
  from i low j out eq fb st show ?thesis by (intro conjI)
qed

section \<open>The word results\<close>

text \<open>
  Claim C10, as amended. In every word result of \<open>compare\<close>: the status is missed if and
  only if the spoken field is empty and the similarity is 0; a correct word has a
  similarity of at least \<open>correctThreshold\<close>; an incorrect word has a similarity of at
  least 0.50 for which the test \<open>similarity >= correctThreshold\<close> has failed, so that it is
  strictly below \<open>correctThreshold\<close> whenever \<open>correctThreshold\<close> is not \<open>NaN\<close>; the
  similarity lies in \<open>[0, 1]\<close>; and for a word that is not missed it is the adjusted score
  of a spoken token inside the window of its position, or exactly 1 for a spoken token
  outside the window that equals the reference token.
\<close>

theorem word_result_invariants:
  assumes "i < length (tokenize lc originalText)"
  shows "(status (wordResults (compare lc originalText spokenText thr) ! i) = Missed
      \<longleftrightarrow> spoken (wordResults (compare lc originalText spokenText thr) ! i) = []
          \<and> score (wordResults (compare lc originalText spokenText thr) ! i) = 0)
    \<and> (status (wordResults (compare lc originalText spokenText thr) ! i) = Correct
      \<longrightarrow> ge_num (score (wordResults (compare lc originalText spokenText thr) ! i)) (threshold thr))
    \<and> (status (wordResults (compare lc originalText spokenText thr) ! i) = Incorrect
      \<longrightarrow> 1 / 2 \<le> score (wordResults (compare lc originalText spokenText thr) ! i)
          \<and> \<not> ge_num (score (wordResults (compare lc originalText spokenText thr) ! i)) (threshold thr))
    \<and> (status (wordResults (compare lc originalText spokenText thr) ! i) = Incorrect
          \<and> threshold thr \<noteq> NaN
      \<longrightarrow> lt_num (score (wordResults (compare lc originalText spokenText thr) ! i)) (threshold thr))
    \<and> (\<forall>t. threshold thr = Num t \<longrightarrow>
          (status (wordResults (compare lc originalText spokenText thr) ! i) = Correct
             \<longrightarrow> t \<le> score (wordResults (compare lc originalText spokenText thr) ! i))
          \<and> (status (wordResults (compare lc originalText spokenText thr) ! i) = Incorrect
             \<longrightarrow> 1 / 2 \<le> score (wordResults (compare lc originalText spokenText thr) ! i)
                 \<and> score (wordResults (compare lc originalText spokenText thr) ! i) < t))
    \<and> 0 \<le> score (wordResults (compare lc originalText spokenText thr) ! i)
    \<and> score (wordResults (compare lc originalText spokenText thr) ! i) \<le> 1
    \<and> (status (wordResults (compare lc originalText spokenText thr) ! i) \<noteq> Missed
      \<longrightarrow> (\<exists>j < length (tokenize lc spokenText).
            spoken (wordResults (compare lc originalText spokenText thr) ! i)
              = tokenize lc spokenText ! j
            \<and> ((searchStart i \<le> j \<and> j < searchEnd (tokenize lc spokenText) i
                 \<and> score (wordResults (compare lc originalText spokenText thr) ! i)
                     = adjustedSim (tokenize lc originalText) (tokenize lc spokenText) i j)
               \<or> (\<not> (searchStart i \<le> j \<and> j < searchEnd (tokenize lc spokenText) i)
                  \<and> tokenize lc spokenText ! j = tokenize lc originalText ! i
                  \<and> score (wordResults (compare lc originalText spokenText thr) ! i) = 1))))"
proof -
  define ow where "ow = tokenize lc originalText"
  define sw where "sw = tokenize lc spokenText"
  define t where "t = threshold thr"
  define st where "st = compare_loop t ow sw (length ow)"
  define w where "w = wordResults (snd st) ! i"
  have inv: "loop_inv t ow sw (length ow) st" unfolding st_def by (rule loop_inv_loop)
  have R: "wordResults (compare lc originalText spokenText thr) ! i = w"
    by (simp add: compare_eq finish_fields w_def st_def ow_def sw_def t_def)
  have ok: "record_ok t ow sw i w"
    using inv assms by (simp add: loop_inv_def w_def ow_def)
  have m: "status w \<noteq> Missed \<Longrightarrow> matched ow sw i w"
    using ok by (cases "status w") (simp_all add: record_ok_def)
  have range: "0 \<le> score w \<and> score w \<le> 1"
  proof (cases "status w = Missed")
    case True
    with ok show ?thesis by (simp add: record_ok_def)
  next
    case False
    from m [OF False] have "0 < score w"
      and "\<exists>j. score w = adjustedSim ow sw i j \<or> score w = 1"
      by (auto simp: matched_def)
    then show ?thesis using adjustedSim_le_1 [of ow sw i] by auto
  qed
  have miss: "status w = Missed \<longleftrightarrow> spoken w = [] \<and> score w = 0"
  proof (cases "status w = Missed")
    case True
    with ok show ?thesis by (simp add: record_ok_def)
  next
    case False
    from m [OF False] have "spoken w \<noteq> []" by (simp add: matched_def)
    with False show ?thesis by simp
  qed
  have cor: "status w = Correct \<longrightarrow> ge_num (score w) t"
    using ok by (auto simp: record_ok_def)
  have inc: "status w = Incorrect \<longrightarrow> 1 / 2 \<le> score w \<and> \<not> ge_num (score w) t"
    using ok by (auto simp: record_ok_def lit_0_5_eq)
  have lt: "status w = Incorrect \<and> t \<noteq> NaN \<longrightarrow> lt_num (score w) t"
    using inc range by (cases t) auto
  have fin: "\<forall>x. t = Num x \<longrightarrow>
      (status w = Correct \<longrightarrow> x \<le> score w)
      \<and> (status w = Incorrect \<longrightarrow> 1 / 2 \<le> score w \<and> score w < x)"
    using cor inc by auto
  have src: "status w \<noteq> Missed \<longrightarrow>
      (\<exists>j < length sw. spoken w = sw ! j
         \<and> ((searchStart i \<le> j \<and> j < searchEnd sw i \<and> score w = adjustedSim ow sw i j)
            \<or> (\<not> (searchStart i \<le> j \<and> j < searchEnd sw i) \<and> sw ! j = ow ! i \<and> score w = 1)))"
    using m by (auto simp: matched_def in_window_def)
  from miss cor inc lt fin range src show ?thesis
    unfolding R ow_def [symmetric] sw_def [symmetric] t_def [symmetric] by blast
qed

theorem word_result_invariants_witness:
  "(0::nat) < length (tokenize lower_ascii (ascii ''abc''))
   \<and> status (wordResults (compare lower_ascii (ascii ''abc'') (ascii ''abd'') None) ! 0) = Incorrect
   \<and> threshold None = Num lit_0_70
   \<and> 1 / 2 \<le> score (wordResults (compare lower_ascii (ascii ''abc'') (ascii ''abd'') None) ! 0)
   \<and> score (wordResults (compare lower_ascii (ascii ''abc'') (ascii ''abd'') None) ! 0) < lit_0_70
   \<and> score (wordResults (compare lower_ascii (ascii ''abc'') (ascii ''abd'') None) ! 0) \<le> 1"
proof -
  have i: "(0::nat) < length (tokenize lower_ascii (ascii ''abc''))" by code_simp
  have s: "status (wordResults (compare lower_ascii (ascii ''abc'') (ascii ''abd'') None) ! 0) = Incorrect"
    by code_simp
  have t: "threshold None = Num lit_0_70" by (simp add: threshold_def)
  note T = word_result_invariants [OF i, of "ascii ''abd''" None]
  from T s t have "1 / 2 \<le> score (wordResults (compare lower_ascii (ascii ''abc'') (ascii ''abd'') None) ! 0)
     \<and> score (wordResults (compare lower_ascii (ascii ''abc'') (ascii ''abd'') None) ! 0) < lit_0_70"
    by blast
  moreover from T have "score (wordResults (compare lower_ascii (ascii ''abc'') (ascii ''abd'') None) ! 0) \<le> 1"
    by blast
  ultimately show ?thesis using i s t by blast
qed

text \<open>
  The claim as stated fails when \<open>correctThreshold\<close> is \<open>NaN\<close>: comparing \<open>kedi\<close> with
  \<open>kedi\<close>, the test \<open>1 >= NaN\<close> fails and \<open>1 >= 0.5\<close> holds, so the word is classified
  incorrect with the similarity 1, which is not below the threshold.
\<close>

theorem word_result_invariants_counterexample:
  "map status (wordResults (compare lower_ascii (ascii ''kedi'') (ascii ''kedi'') (Some NaN)))
     = [Incorrect]
   \<and> map score (wordResults (compare lower_ascii (ascii ''kedi'') (ascii ''kedi'') (Some NaN)))
     = [1]
   \<and> \<not> lt_num 1 (threshold (Some NaN))"
  by code_simp

end
